theory Spec2Isabelle
  imports Main "HOL-Library.Word" "HOL-Library.Signed_Division"
begin

unbundle bit_operations_syntax

section \<open>Data model of MT\_matrix.c (include/matrix.h)\<close>

text \<open>
  The C type \<open>int\<close> of the matrix elements is a 32-bit two's complement integer:
  \<open>+\<close> and \<open>*\<close> on \<open>cint\<close> wrap around, \<open>sint\<close> reads the signed value. (The C standard
  leaves a signed overflow undefined; the wrap-around is what the compiled arithmetic
  does.)
  Row counts, column counts and row indices are kept as mathematical integers; the
  partition lemmas below show that every index the program computes from a row count
  \<open>rows \<ge> 0\<close> stays in \<open>[0, rows]\<close>, so none of them can leave the range of \<open>int\<close>.
  The C operators \<open>/\<close> and \<open>%\<close> truncate towards zero: \<open>sdiv\<close> and \<open>smod\<close>.
\<close>

type_synonym cint = "32 word"

record Matrix =
  row :: int
  col :: int
  data :: "cint list list"

record Task =
  start_row :: int
  end_row :: int

definition BUF_SIZE :: nat where
  "BUF_SIZE = 1000"

section \<open>The partition loop of multiply()\<close>

text \<open>
  \<^verbatim>\<open>
  int start_row = 0;
  for (n = 0; n < n_thread; n++) {
      t[n].start_row = start_row;
      ...
      if (n < (m->row % n_thread))
          t[n].end_row = t[n].start_row + m->row / n_thread + 1;
      else
          t[n].end_row = t[n].start_row + m->row / n_thread;
      start_row = t[n].end_row;
  }
  \<close>
  \<open>partition_loop rows n_thread n start_row\<close> is the part of the array \<open>t\<close> that the loop
  fills from index \<open>n\<close> on, entered with the running variable \<open>start_row\<close>.
\<close>

function partition_loop :: "int \<Rightarrow> int \<Rightarrow> int \<Rightarrow> int \<Rightarrow> Task list" where
  "partition_loop rows n_thread n s =
     (if n < n_thread then
        (let e = (if n < rows smod n_thread
                  then s + rows sdiv n_thread + 1
                  else s + rows sdiv n_thread)
         in \<lparr>start_row = s, end_row = e\<rparr> # partition_loop rows n_thread (n + 1) e)
      else [])"
  by pat_completeness auto
termination
  by (relation "measure (\<lambda>(rows, n_thread, n, s). nat (n_thread - n))") auto

definition tasks_of :: "int \<Rightarrow> int \<Rightarrow> Task list" where
  "tasks_of rows n_thread = partition_loop rows n_thread 0 0"

definition task_rows :: "Task \<Rightarrow> int set" where
  "task_rows t = {start_row t ..< end_row t}"

text \<open>
  Closed form of the loop variable: the value of \<open>start_row\<close> on entry to iteration \<open>k\<close>.
\<close>

definition row_offset :: "int \<Rightarrow> int \<Rightarrow> int \<Rightarrow> int" where
  "row_offset rows n_thread k = k * (rows div n_thread) + min k (rows mod n_thread)"

lemma sdiv_nonneg: "0 \<le> (a::int) \<Longrightarrow> 0 < b \<Longrightarrow> a sdiv b = a div b"
  by (simp add: signed_divide_int_def sgn_if)

lemma smod_nonneg: "0 \<le> (a::int) \<Longrightarrow> 0 < b \<Longrightarrow> a smod b = a mod b"
  by (simp add: signed_modulo_int_def sgn_if)

lemma row_offset_step:
  "row_offset rows N (n + 1) =
     row_offset rows N n + rows div N + (if n < rows mod N then 1 else 0)"
  by (simp add: row_offset_def algebra_simps min_def)

lemma partition_loop_closed:
  "0 \<le> rows \<Longrightarrow> 0 < N \<Longrightarrow>
   partition_loop rows N n (row_offset rows N n) =
     map (\<lambda>k. \<lparr>start_row = row_offset rows N k, end_row = row_offset rows N (k + 1)\<rparr>) [n..N - 1]"
proof (induction rows N n "row_offset rows N n" rule: partition_loop.induct)
  case (1 rows N n)
  show ?case
  proof (cases "n < N")
    case True
    let ?e = "row_offset rows N (n + 1)"
    have e: "(if n < rows smod N then row_offset rows N n + rows sdiv N + 1
              else row_offset rows N n + rows sdiv N) = ?e"
      using 1(2,3) by (simp add: row_offset_step sdiv_nonneg smod_nonneg)
    have "partition_loop rows N (n + 1) ?e = map (\<lambda>k. \<lparr>start_row = row_offset rows N k, end_row = row_offset rows N (k + 1)\<rparr>) [n + 1..N - 1]"
      using 1(1)[OF True e[symmetric] 1(2,3)] .
    then show ?thesis
      using True e by (subst partition_loop.simps) (simp add: upto_rec1[of n "N - 1"] Let_def)
  next
    case False
    then show ?thesis by (subst partition_loop.simps) simp
  qed
qed


lemma tasks_of_closed:
  assumes "0 \<le> rows" "0 < N"
  shows "tasks_of rows N =
     map (\<lambda>k. \<lparr>start_row = row_offset rows N k, end_row = row_offset rows N (k + 1)\<rparr>) [0..N - 1]"
proof -
  have "row_offset rows N 0 = 0" using assms by (simp add: row_offset_def)
  then show ?thesis
    using partition_loop_closed[OF assms, of 0] by (simp add: tasks_of_def)
qed

lemma length_tasks_of: "0 \<le> rows \<Longrightarrow> 0 < N \<Longrightarrow> length (tasks_of rows N) = nat N"
  by (simp add: tasks_of_closed)

lemma nth_tasks_of:
  assumes "0 \<le> rows" "0 < N" "i < nat N"
  shows "tasks_of rows N ! i =
     \<lparr>start_row = row_offset rows N (int i), end_row = row_offset rows N (int i + 1)\<rparr>"
  using assms by (simp add: tasks_of_closed)

lemma row_offset_0: "0 < N \<Longrightarrow> row_offset rows N 0 = 0"
  by (simp add: row_offset_def)

lemma row_offset_N: "0 \<le> rows \<Longrightarrow> 0 < N \<Longrightarrow> row_offset rows N N = rows"
proof -
  assume "0 \<le> rows" "0 < N"
  then have "rows mod N < N" by simp
  then have "min N (rows mod N) = rows mod N" by simp
  then show ?thesis by (simp add: row_offset_def)
qed

lemma row_offset_mono_step: "0 \<le> rows \<Longrightarrow> 0 < N \<Longrightarrow> row_offset rows N k \<le> row_offset rows N (k + 1)"
  by (simp add: row_offset_step pos_imp_zdiv_nonneg_iff)

lemma row_offset_mono_nat:
  assumes "0 \<le> rows" "0 < N"
  shows "row_offset rows N k \<le> row_offset rows N (k + int d)"
proof (induction d)
  case 0
  then show ?case by simp
next
  case (Suc d)
  have "row_offset rows N (k + int d) \<le> row_offset rows N (k + int d + 1)"
    by (rule row_offset_mono_step[OF assms])
  with Suc show ?case by (simp add: algebra_simps)
qed

lemma row_offset_mono:
  assumes "0 \<le> rows" "0 < N" "j \<le> k"
  shows "row_offset rows N j \<le> row_offset rows N k"
  using row_offset_mono_nat[OF assms(1,2), of j "nat (k - j)"] assms(3) by simp

lemma row_offset_cover:
  assumes "0 \<le> rows" "0 < N"
  shows "(\<Union>i<n. {row_offset rows N (int i) ..< row_offset rows N (int i + 1)}) =
         {0 ..< row_offset rows N (int n)}"
proof (induction n)
  case 0
  then show ?case by (simp add: row_offset_0 assms)
next
  case (Suc n)
  have a: "0 \<le> row_offset rows N (int n)"
    using row_offset_mono[OF assms, of 0 "int n"] by (simp add: row_offset_0 assms)
  have b: "row_offset rows N (int n) \<le> row_offset rows N (int n + 1)"
    by (rule row_offset_mono_step[OF assms])
  have "{0 ..< row_offset rows N (int n)} \<union> {row_offset rows N (int n) ..< row_offset rows N (int n + 1)}
        = {0 ..< row_offset rows N (int n + 1)}"
    using a b by auto
  with Suc show ?case by (simp add: lessThan_Suc Un_commute add.commute)
qed


text \<open>
  Claim C2. For every \<open>rows \<ge> 0\<close> and \<open>n_thread \<ge> 1\<close> the loop produces \<open>n_thread\<close> tasks
  that are contiguous in worker-index order (the first starts at row 0, each next one starts
  where the previous one ends, the last ends at \<open>rows\<close>), pairwise disjoint, cover exactly
  \<open>[0, rows)\<close>, and task \<open>i\<close> holds \<open>rows div n_thread\<close> rows plus one more exactly when
  \<open>i < rows mod n_thread\<close>. Every bound computed lies in \<open>[0, rows]\<close>.
\<close>

theorem partition_law:
  assumes "0 \<le> rows" and "1 \<le> n_thread"
  shows "length (tasks_of rows n_thread) = nat n_thread
       \<and> start_row (tasks_of rows n_thread ! 0) = 0
       \<and> (\<forall>i. Suc i < nat n_thread \<longrightarrow>
              start_row (tasks_of rows n_thread ! Suc i) = end_row (tasks_of rows n_thread ! i))
       \<and> end_row (last (tasks_of rows n_thread)) = rows
       \<and> (\<forall>i j. i < j \<and> j < nat n_thread \<longrightarrow>
              task_rows (tasks_of rows n_thread ! i) \<inter> task_rows (tasks_of rows n_thread ! j) = {})
       \<and> (\<Union>t \<in> set (tasks_of rows n_thread). task_rows t) = {0 ..< rows}
       \<and> (\<forall>i < nat n_thread.
              end_row (tasks_of rows n_thread ! i) - start_row (tasks_of rows n_thread ! i)
                = rows div n_thread + (if int i < rows mod n_thread then 1 else 0))
       \<and> (\<forall>t \<in> set (tasks_of rows n_thread).
              0 \<le> start_row t \<and> start_row t \<le> end_row t \<and> end_row t \<le> rows)"
proof -
  let ?ts = "tasks_of rows n_thread"
  let ?off = "row_offset rows n_thread"
  have N: "0 < n_thread" using assms(2) by simp
  note nth = nth_tasks_of[OF assms(1) N]
  have len: "length ?ts = nat n_thread"
    by (rule length_tasks_of[OF assms(1) N])
  have first: "start_row (?ts ! 0) = 0"
    using nth[of 0] N by (simp add: row_offset_0)
  have contig: "start_row (?ts ! Suc i) = end_row (?ts ! i)" if "Suc i < nat n_thread" for i
    using nth[of i] nth[of "Suc i"] that by (simp add: add.commute)
  have "?ts \<noteq> []" using len N by auto
  then have "last ?ts = ?ts ! (nat n_thread - 1)"
    by (simp add: last_conv_nth len)
  then have lst: "end_row (last ?ts) = rows"
    using nth[of "nat n_thread - 1"] N by (simp add: row_offset_N[OF assms(1) N])
  have disj: "task_rows (?ts ! i) \<inter> task_rows (?ts ! j) = {}" if "i < j \<and> j < nat n_thread" for i j
  proof -
    have "?off (int i + 1) \<le> ?off (int j)"
      using that by (intro row_offset_mono[OF assms(1) N]) simp
    then show ?thesis
      using nth[of i] nth[of j] that by (auto simp: task_rows_def)
  qed
  have "(\<Union>t \<in> set ?ts. task_rows t) = (\<Union>i<nat n_thread. task_rows (?ts ! i))"
    by (auto simp: set_conv_nth len)
  also have "\<dots> = (\<Union>i<nat n_thread. {?off (int i) ..< ?off (int i + 1)})"
    using nth by (simp add: task_rows_def)
  also have "\<dots> = {0 ..< ?off (int (nat n_thread))}"
    by (rule row_offset_cover[OF assms(1) N])
  also have "\<dots> = {0 ..< rows}"
    using N by (simp add: row_offset_N[OF assms(1) N])
  finally have cover: "(\<Union>t \<in> set ?ts. task_rows t) = {0 ..< rows}" .
  have size: "end_row (?ts ! i) - start_row (?ts ! i)
                = rows div n_thread + (if int i < rows mod n_thread then 1 else 0)"
    if "i < nat n_thread" for i
    using nth[OF that] by (simp add: row_offset_step)
  have bounds: "0 \<le> start_row t \<and> start_row t \<le> end_row t \<and> end_row t \<le> rows"
    if "t \<in> set ?ts" for t
  proof -
    from that obtain i where i: "i < nat n_thread" "t = ?ts ! i"
      by (auto simp: in_set_conv_nth len)
    have "?off 0 \<le> ?off (int i)" "?off (int i) \<le> ?off (int i + 1)"
         "?off (int i + 1) \<le> ?off n_thread"
      using i(1) by (auto intro!: row_offset_mono[OF assms(1) N])
    then show ?thesis
      using nth[OF i(1)] i(2) N by (simp add: row_offset_0 row_offset_N[OF assms(1) N])
  qed
  from len first contig lst disj cover size bounds show ?thesis by blast
qed

lemma tasks_of_7_3:
  "tasks_of 7 3 = [\<lparr>start_row = 0, end_row = 3\<rparr>, \<lparr>start_row = 3, end_row = 5\<rparr>,
                   \<lparr>start_row = 5, end_row = 7\<rparr>]"
  by code_simp

theorem partition_law_witness:
  "(0::int) \<le> 7 \<and> (1::int) \<le> 3 \<and> length (tasks_of 7 3) = 3
   \<and> end_row (last (tasks_of 7 3)) = 7
   \<and> (\<Union>t \<in> set (tasks_of 7 3). task_rows t) = {0 ..< 7}
   \<and> end_row (tasks_of 7 3 ! 0) - start_row (tasks_of 7 3 ! 0) = 3
   \<and> end_row (tasks_of 7 3 ! 2) - start_row (tasks_of 7 3 ! 2) = 2"
  using partition_law[of 7 3] by (simp add: tasks_of_7_3)

section \<open>Decimal text: sprintf("%d"), strtol and atoi\<close>

text \<open>
  The child sends every sum as text: \<^verbatim>\<open>sprintf(buffer, "%d", sum)\<close>; the parent turns the
  text back into an \<open>int\<close> with \<^verbatim>\<open>atoi(buffer)\<close>. \<open>sprintf_d\<close> is the text "%d" produces,
  \<open>sprintf_buf\<close> stores a text and its terminating NUL at the start of a buffer and leaves
  the bytes behind it as they were, \<open>c_string\<close> is the C string a buffer holds (the bytes
  before the first NUL), \<open>strtol\<close> skips white space, reads an optional sign and the
  decimal digits and saturates at the bounds of a 64-bit \<open>long\<close>, and \<open>atoi\<close> converts
  its result to \<open>int\<close>.
\<close>

definition NUL :: char where
  "NUL = CHR 0x00"

definition digit_char :: "nat \<Rightarrow> char" where
  "digit_char d = ''0123456789'' ! d"

definition is_digit :: "char \<Rightarrow> bool" where
  "is_digit c = (48 \<le> (of_char c :: nat) \<and> (of_char c :: nat) \<le> 57)"

definition digit_val :: "char \<Rightarrow> nat" where
  "digit_val c = of_char c - 48"

definition isspace :: "char \<Rightarrow> bool" where
  "isspace c = (c = CHR '' '' \<or> (9 \<le> (of_char c :: nat) \<and> (of_char c :: nat) \<le> 13))"

fun digits :: "nat \<Rightarrow> string" where
  "digits n = (if n < 10 then [digit_char n] else digits (n div 10) @ [digit_char (n mod 10)])"

declare digits.simps [simp del]

definition sprintf_d :: "int \<Rightarrow> string" where
  "sprintf_d i = (if i < 0 then CHR ''-'' # digits (nat (- i)) else digits (nat i))"

fun parse_digits :: "nat \<Rightarrow> string \<Rightarrow> nat \<times> string" where
  "parse_digits acc [] = (acc, [])"
| "parse_digits acc (c # cs) =
     (if is_digit c then parse_digits (10 * acc + digit_val c) cs else (acc, c # cs))"

definition c_string :: "char list \<Rightarrow> string" where
  "c_string buf = takeWhile (\<lambda>c. c \<noteq> NUL) buf"

lemma lt_10_cases:
  "d < 10 \<Longrightarrow> d = 0 \<or> d = 1 \<or> d = 2 \<or> d = 3 \<or> d = 4 \<or> d = 5 \<or> d = 6 \<or> d = 7 \<or> d = 8 \<or> d = (9::nat)"
  by arith

lemma nth_digits_simps:
  "''0123456789'' ! 0 = CHR ''0''" "''0123456789'' ! 1 = CHR ''1''" "''0123456789'' ! 2 = CHR ''2''"
  "''0123456789'' ! 3 = CHR ''3''" "''0123456789'' ! 4 = CHR ''4''" "''0123456789'' ! 5 = CHR ''5''"
  "''0123456789'' ! 6 = CHR ''6''" "''0123456789'' ! 7 = CHR ''7''" "''0123456789'' ! 8 = CHR ''8''"
  "''0123456789'' ! 9 = CHR ''9''"
  by (simp_all add: numeral_nat)

lemma digit_char_is_digit: "d < 10 \<Longrightarrow> is_digit (digit_char d)"
  by (drule lt_10_cases) (elim disjE; simp add: digit_char_def is_digit_def nth_digits_simps)

lemma digit_val_digit_char: "d < 10 \<Longrightarrow> digit_val (digit_char d) = d"
  by (drule lt_10_cases) (elim disjE; simp add: digit_char_def digit_val_def nth_digits_simps)

lemma digit_char_of_char: "d < 10 \<Longrightarrow> (of_char (digit_char d) :: nat) = 48 + d"
  by (drule lt_10_cases) (elim disjE; simp add: digit_char_def nth_digits_simps)

lemma digits_small: "n < 10 \<Longrightarrow> digits n = [digit_char n]"
  by (simp add: digits.simps)

lemma digits_large: "10 \<le> n \<Longrightarrow> digits n = digits (n div 10) @ [digit_char (n mod 10)]"
  by (subst digits.simps) simp

definition sprintf_buf :: "char list \<Rightarrow> string \<Rightarrow> char list" where
  "sprintf_buf buf s = s @ NUL # drop (Suc (length s)) buf"

definition strtol :: "string \<Rightarrow> int" where
  "strtol s =
     (let s1 = dropWhile isspace s;
          neg = (s1 \<noteq> [] \<and> hd s1 = CHR ''-'');
          s2 = (if s1 \<noteq> [] \<and> (hd s1 = CHR ''-'' \<or> hd s1 = CHR ''+'') then tl s1 else s1);
          v = int (fst (parse_digits 0 s2))
      in if neg then max (- (2 ^ 63)) (- v) else min (2 ^ 63 - 1) v)"

definition atoi :: "char list \<Rightarrow> cint" where
  "atoi buf = word_of_int (strtol (c_string buf))"

lemma digits_nonempty: "digits n \<noteq> []"
  by (subst digits.simps) simp

lemma digits_all: "c \<in> set (digits n) \<Longrightarrow> \<exists>d<10. c = digit_char d"
proof (induction n rule: digits.induct)
  case (1 n)
  show ?case
  proof (cases "n < 10")
    case True
    with 1(2) show ?thesis by (auto simp: digits_small)
  next
    case False
    then have "c \<in> set (digits (n div 10)) \<or> c = digit_char (n mod 10)"
      using 1(2) by (auto simp: digits_large)
    then show ?thesis
    proof
      assume "c \<in> set (digits (n div 10))"
      then show ?thesis using 1(1) False by simp
    next
      assume "c = digit_char (n mod 10)"
      moreover have "n mod 10 < 10" by simp
      ultimately show ?thesis by blast
    qed
  qed
qed

lemma hd_digits: "\<exists>d<10. hd (digits n) = digit_char d"
  using digits_all[of "hd (digits n)" n] digits_nonempty[of n] by simp

lemma parse_digits_append:
  assumes "\<forall>c \<in> set ds. is_digit c"
  shows "parse_digits acc (ds @ rest) = parse_digits (fst (parse_digits acc ds)) rest"
  using assms by (induction ds arbitrary: acc) auto

lemma parse_digits_all:
  assumes "\<forall>c \<in> set ds. is_digit c"
  shows "snd (parse_digits acc ds) = []"
  using assms by (induction ds arbitrary: acc) auto

lemma all_digits_digits: "\<forall>c \<in> set (digits n). is_digit c"
  using digits_all digit_char_is_digit by blast

lemma parse_digits_digits: "fst (parse_digits acc (digits n)) = acc * 10 ^ length (digits n) + n"
proof (induction n arbitrary: acc rule: digits.induct)
  case (1 n)
  show ?case
  proof (cases "n < 10")
    case True
    then show ?thesis
      by (simp add: digits_small digit_char_is_digit digit_val_digit_char)
  next
    case False
    have d: "n mod 10 < 10" by simp
    have "fst (parse_digits acc (digits n))
          = fst (parse_digits (fst (parse_digits acc (digits (n div 10)))) [digit_char (n mod 10)])"
      using False by (simp add: digits_large parse_digits_append[OF all_digits_digits])
    also have "\<dots> = 10 * (acc * 10 ^ length (digits (n div 10)) + n div 10) + n mod 10"
      using 1[OF False] by (simp add: digit_char_is_digit[OF d] digit_val_digit_char[OF d])
    also have "\<dots> = acc * 10 ^ length (digits n) + n"
      using False by (simp add: digits_large algebra_simps)
    finally show ?thesis .
  qed
qed

lemma parse_digits_digits_stop:
  assumes "rest = [] \<or> \<not> is_digit (hd rest)"
  shows "parse_digits 0 (digits n @ rest) = (n, rest)"
proof -
  have "parse_digits 0 (digits n @ rest) = parse_digits n rest"
    by (simp add: parse_digits_append[OF all_digits_digits] parse_digits_digits)
  also have "\<dots> = (n, rest)" using assms by (cases rest) auto
  finally show ?thesis .
qed

lemma length_digits_le: "n < 10 ^ k \<Longrightarrow> 0 < k \<Longrightarrow> length (digits n) \<le> k"
proof (induction n arbitrary: k rule: digits.induct)
  case (1 n)
  show ?case
  proof (cases "n < 10")
    case True
    then show ?thesis using 1(3) by (simp add: digits_small)
  next
    case False
    then obtain k' where k: "k = Suc k'" "0 < k'"
      using 1(2,3) by (cases k; cases "k - 1") auto
    have "n div 10 < 10 ^ k'" using 1(2) k by (simp add: less_mult_imp_div_less)
    then have "length (digits (n div 10)) \<le> k'" using 1(1)[OF False _ k(2)] by simp
    then show ?thesis using False k by (simp add: digits_large)
  qed
qed

lemma digit_char_neq: "d < 10 \<Longrightarrow> (of_char c :: nat) < 48 \<Longrightarrow> digit_char d \<noteq> c"
  using digit_char_of_char[of d] by auto

lemma digit_char_not_space: "d < 10 \<Longrightarrow> \<not> isspace (digit_char d)"
  using digit_char_of_char[of d] by (auto simp: isspace_def)

lemma digits_neq: "(of_char c :: nat) < 48 \<Longrightarrow> c \<notin> set (digits n)"
  using digits_all[of c n] digit_char_neq[of _ c] by blast

lemma NUL_notin_sprintf_d: "NUL \<notin> set (sprintf_d i)"
  using digits_neq[of NUL] by (simp add: sprintf_d_def NUL_def)

lemma c_string_sprintf_buf: "NUL \<notin> set s \<Longrightarrow> c_string (sprintf_buf buf s) = s"
  by (auto simp: c_string_def sprintf_buf_def takeWhile_tail)

lemma strtol_digits:
  assumes "int n \<le> 2 ^ 63 - 1"
  shows "strtol (digits n) = int n"
proof -
  obtain d where d: "d < 10" "hd (digits n) = digit_char d"
    using hd_digits by blast
  have ne: "digits n \<noteq> []" by (rule digits_nonempty)
  then have "dropWhile isspace (digits n) = digits n"
    using d digit_char_not_space[of d] by (cases "digits n") auto
  moreover have "hd (digits n) \<noteq> CHR ''-''" "hd (digits n) \<noteq> CHR ''+''"
    using d digit_char_neq[of d] by auto
  moreover have "parse_digits 0 (digits n) = (n, [])"
    using parse_digits_digits_stop[of "[]" n] by simp
  ultimately show ?thesis
    using assms by (simp add: strtol_def Let_def)
qed

lemma strtol_minus_digits:
  assumes "int n \<le> 2 ^ 63"
  shows "strtol (CHR ''-'' # digits n) = - int n"
proof -
  have "\<not> isspace CHR ''-''" by (simp add: isspace_def)
  moreover have "parse_digits 0 (digits n) = (n, [])"
    using parse_digits_digits_stop[of "[]" n] by simp
  ultimately show ?thesis
    using assms by (simp add: strtol_def Let_def)
qed

lemma strtol_sprintf_d:
  assumes "- (2 ^ 63) \<le> i" "i \<le> 2 ^ 63 - 1"
  shows "strtol (sprintf_d i) = i"
proof (cases "i < 0")
  case True
  then show ?thesis
    using assms strtol_minus_digits[of "nat (- i)"] by (simp add: sprintf_d_def)
next
  case False
  then show ?thesis
    using assms strtol_digits[of "nat i"] by (simp add: sprintf_d_def)
qed

lemma sint_range32: "- (2 ^ 31) \<le> sint (w :: cint) \<and> sint w < 2 ^ 31"
  using sint_ge[of w] sint_lt[of w] by simp

lemma atoi_sprintf_buf: "atoi (sprintf_buf buf (sprintf_d (sint (w :: cint)))) = w"
proof -
  have "strtol (sprintf_d (sint w)) = sint w"
    using sint_range32[of w] by (intro strtol_sprintf_d) auto
  then show ?thesis
    by (simp add: atoi_def c_string_sprintf_buf[OF NUL_notin_sprintf_d])
qed

lemma nat_lt_10_10: "(i::int) \<le> 2 ^ 31 \<Longrightarrow> nat i < 10 ^ 10"
  using nat_mono[of i "2 ^ 31"] by simp

lemma length_sprintf_d: "length (sprintf_d (sint (w :: cint))) \<le> 11"
proof (cases "sint w < 0")
  case True
  have "nat (- sint w) < 10 ^ 10" using sint_range32[of w] by (intro nat_lt_10_10) simp
  then have "length (digits (nat (- sint w))) \<le> 10" by (rule length_digits_le) simp
  then show ?thesis using True by (simp add: sprintf_d_def)
next
  case False
  have "nat (sint w) < 10 ^ 10" using sint_range32[of w] by (intro nat_lt_10_10) simp
  then have "length (digits (nat (sint w))) \<le> 10" by (rule length_digits_le) simp
  then show ?thesis using False by (simp add: sprintf_d_def)
qed

lemma length_sprintf_buf:
  "Suc (length s) \<le> length buf \<Longrightarrow> length (sprintf_buf buf s) = length buf"
  by (simp add: sprintf_buf_def)

section \<open>thread(): the child computes, the parent collects\<close>

text \<open>
  \<^verbatim>\<open>
  for (r = t.start_row; r < t.end_row; r++)
      for (c = 0; c < m2->col; c++) {
          sum = 0;
          for (i = 0; i < m1->col; i++)
              sum += m1->data[r][i] * m2->data[i][c];
          sprintf(buffer, "%d", sum);
          write(fd[1], buffer, BUF_SIZE);
      }
  \<close>
  is the child; \<open>cell_sum\<close> is the innermost loop, in 32-bit arithmetic. The child's state
  is its \<open>buffer\<close> and the list of the \<open>write\<close> calls made so far (each one hands the
  \<open>BUF_SIZE\<close> bytes of the buffer to the pipe). The buffer is not initialised by the
  program: its first contents are a parameter.

  \<^verbatim>\<open>
  for (r = t.start_row; r < t.end_row; r++)
      for (c = 0; c < m2->col; c++) {
          read(fd[0], buffer, BUF_SIZE);
          m->data[r][c] = atoi(buffer);
      }
  \<close>
  is the parent. The pipe is a byte stream: a \<open>read\<close> of \<open>BUF_SIZE\<close> bytes takes the next
  (at most) \<open>BUF_SIZE\<close> bytes of what the child wrote. The parent's state is its buffer,
  the bytes still in the pipe, the list of what each \<open>read\<close> returned, and the rows of
  the output matrix.

  \<open>thread\<close> returns without touching the matrix when \<open>pipe()\<close> or \<open>fork()\<close> fails. Its
  exchange with /proc/thread\_info, which does not touch the matrix, is modelled further
  down.
\<close>

definition cell_sum :: "Matrix \<Rightarrow> Matrix \<Rightarrow> int \<Rightarrow> int \<Rightarrow> cint" where
  "cell_sum m1 m2 r c =
     fold (\<lambda>i sum. sum + (data m1 ! nat r ! nat i) * (data m2 ! nat i ! nat c)) [0..col m1 - 1] 0"

record child_state =
  cbuf :: "char list"
  written :: "char list list"

definition child_body :: "Matrix \<Rightarrow> Matrix \<Rightarrow> int \<Rightarrow> int \<Rightarrow> child_state \<Rightarrow> child_state" where
  "child_body m1 m2 r c st =
     (let sum = cell_sum m1 m2 r c;
          b = sprintf_buf (cbuf st) (sprintf_d (sint sum))
      in \<lparr>cbuf = b, written = written st @ [take BUF_SIZE b]\<rparr>)"

definition child :: "Task \<Rightarrow> Matrix \<Rightarrow> Matrix \<Rightarrow> char list \<Rightarrow> char list list" where
  "child t m1 m2 buffer =
     written (fold (\<lambda>r. fold (child_body m1 m2 r) [0..col m2 - 1]) [start_row t..end_row t - 1]
                \<lparr>cbuf = buffer, written = []\<rparr>)"

record parent_state =
  pbuf :: "char list"
  ppipe :: "char list"
  reads :: "char list list"
  pdata :: "cint list list"

definition store2 :: "cint list list \<Rightarrow> int \<Rightarrow> int \<Rightarrow> cint \<Rightarrow> cint list list" where
  "store2 d r c v = d[nat r := (d ! nat r)[nat c := v]]"

definition parent_body :: "int \<Rightarrow> int \<Rightarrow> parent_state \<Rightarrow> parent_state" where
  "parent_body r c st =
     (let got = take BUF_SIZE (ppipe st);
          b = got @ drop (length got) (pbuf st)
      in \<lparr>pbuf = b, ppipe = drop BUF_SIZE (ppipe st), reads = reads st @ [got],
          pdata = store2 (pdata st) r c (atoi b)\<rparr>)"

definition parent :: "Task \<Rightarrow> Matrix \<Rightarrow> char list \<Rightarrow> char list \<Rightarrow> cint list list \<Rightarrow> parent_state" where
  "parent t m2 pipe buffer d =
     fold (\<lambda>r. fold (parent_body r) [0..col m2 - 1]) [start_row t..end_row t - 1]
       \<lparr>pbuf = buffer, ppipe = pipe, reads = [], pdata = d\<rparr>"

record thread_env =
  pipe_ok :: bool
  fork_ok :: bool
  stack :: "char list"

definition thread :: "thread_env \<Rightarrow> Task \<Rightarrow> Matrix \<Rightarrow> Matrix \<Rightarrow> cint list list \<Rightarrow> cint list list" where
  "thread e t m1 m2 d =
     (if \<not> pipe_ok e then d
      else if \<not> fork_ok e then d
      else pdata (parent t m2 (concat (child t m1 m2 (stack e))) (stack e) d))"

definition cells :: "Task \<Rightarrow> int \<Rightarrow> (int \<times> int) list" where
  "cells t ncol = List.product [start_row t..end_row t - 1] [0..ncol - 1]"

lemma fold_product:
  "fold (\<lambda>r. fold (f r) cs) rs s = fold (\<lambda>(r, c). f r c) (List.product rs cs) s"
  by (induction rs arbitrary: s) (simp_all add: fold_map comp_def)

lemma child_fold:
  assumes "length (cbuf st) = BUF_SIZE"
  shows "\<exists>ws. fold (\<lambda>(r, c). child_body m1 m2 r c) rcs st =
               \<lparr>cbuf = (if rcs = [] then cbuf st else last ws), written = written st @ ws\<rparr>
             \<and> list_all2 (\<lambda>w (r, c). length w = BUF_SIZE \<and> atoi w = cell_sum m1 m2 r c) ws rcs"
  using assms
proof (induction rcs arbitrary: st)
  case Nil
  then show ?case by simp
next
  case (Cons rc rcs)
  obtain r c where rc: "rc = (r, c)" by (cases rc)
  let ?b = "sprintf_buf (cbuf st) (sprintf_d (sint (cell_sum m1 m2 r c)))"
  let ?st = "child_body m1 m2 r c st"
  have len: "length ?b = BUF_SIZE"
    using length_sprintf_d[of "cell_sum m1 m2 r c"] Cons.prems
    by (simp add: length_sprintf_buf BUF_SIZE_def)
  have st: "?st = \<lparr>cbuf = ?b, written = written st @ [?b]\<rparr>"
    using len by (simp add: child_body_def Let_def)
  then have "length (cbuf ?st) = BUF_SIZE" using len by simp
  from Cons.IH[OF this] obtain ws where ws:
    "fold (\<lambda>(r, c). child_body m1 m2 r c) rcs ?st =
       \<lparr>cbuf = (if rcs = [] then cbuf ?st else last ws), written = written ?st @ ws\<rparr>"
    "list_all2 (\<lambda>w (r, c). length w = BUF_SIZE \<and> atoi w = cell_sum m1 m2 r c) ws rcs"
    by blast
  have "rcs = [] \<longleftrightarrow> ws = []" using ws(2) by (auto dest: list_all2_lengthD)
  then have "fold (\<lambda>(r, c). child_body m1 m2 r c) (rc # rcs) st =
       \<lparr>cbuf = last (?b # ws), written = written st @ (?b # ws)\<rparr>"
    using ws(1) st rc by auto
  moreover have "list_all2 (\<lambda>w (r, c). length w = BUF_SIZE \<and> atoi w = cell_sum m1 m2 r c) (?b # ws) (rc # rcs)"
    using ws(2) len rc by (simp add: atoi_sprintf_buf)
  ultimately show ?case by (intro exI[of _ "?b # ws"]) simp
qed

lemma parent_fold:
  assumes "length rcs = length ws" "\<forall>w \<in> set ws. length w = BUF_SIZE"
    "length (pbuf st) = BUF_SIZE" "ppipe st = concat ws @ rest"
  shows "fold (\<lambda>(r, c). parent_body r c) rcs st =
           \<lparr>pbuf = (if ws = [] then pbuf st else last ws), ppipe = rest, reads = reads st @ ws,
            pdata = fold (\<lambda>((r, c), w) d. store2 d r c (atoi w)) (zip rcs ws) (pdata st)\<rparr>"
  using assms
proof (induction rcs ws arbitrary: st rule: list_induct2)
  case Nil
  then show ?case by simp
next
  case (Cons rc rcs w ws)
  obtain r c where rc: "rc = (r, c)" by (cases rc)
  have w: "length w = BUF_SIZE" using Cons.prems(1) by simp
  let ?st = "parent_body r c st"
  have st: "?st = \<lparr>pbuf = w, ppipe = concat ws @ rest, reads = reads st @ [w],
                   pdata = store2 (pdata st) r c (atoi w)\<rparr>"
    using w Cons.prems(2,3) by (simp add: parent_body_def Let_def)
  have "fold (\<lambda>(r, c). parent_body r c) rcs ?st =
           \<lparr>pbuf = (if ws = [] then pbuf ?st else last ws), ppipe = rest, reads = reads ?st @ ws,
            pdata = fold (\<lambda>((r, c), w) d. store2 d r c (atoi w)) (zip rcs ws) (pdata ?st)\<rparr>"
    using Cons.prems(1) w by (intro Cons.IH) (simp_all add: st)
  then show ?case using rc by (simp add: st)
qed

lemma upto_map_int: "[int a..int b - 1] = map int [a..<b]"
proof (induction b)
  case 0
  then show ?case by simp
next
  case (Suc b)
  show ?case
  proof (cases "a \<le> b")
    case True
    then have "[int a..int (Suc b) - 1] = [int a..int b - 1] @ [int b]"
      using upto_rec2[of "int a" "int b"] by simp
    with Suc True show ?thesis by simp
  next
    case False
    then show ?thesis by simp
  qed
qed

lemma upto_nat: "0 \<le> a \<Longrightarrow> [a..b - 1] = map int [nat a..<nat b]"
proof (cases "0 \<le> b")
  case True
  assume "0 \<le> a"
  then show ?thesis using upto_map_int[of "nat a" "nat b"] True by simp
next
  case False
  assume "0 \<le> a"
  then show ?thesis using False by simp
qed

lemma fold_update_row:
  "k \<le> length xs \<Longrightarrow>
   fold (\<lambda>c ys. ys[c := f c]) [0..<k] xs = map f [0..<k] @ drop k xs"
proof (induction k)
  case 0
  then show ?case by simp
next
  case (Suc k)
  then have "fold (\<lambda>c ys. ys[c := f c]) [0..<Suc k] xs = (map f [0..<k] @ drop k xs)[k := f k]"
    by simp
  also have "\<dots> = map f [0..<k] @ (drop k xs)[0 := f k]"
    by (simp add: list_update_append)
  also have "(drop k xs)[0 := f k] = f k # drop (Suc k) xs"
    using Suc.prems by (simp add: Cons_nth_drop_Suc[symmetric])
  finally show ?case by simp
qed

lemma fold_store2_row:
  assumes "0 \<le> r" "nat r < length d"
  shows "fold (\<lambda>c d. store2 d r c (f c)) cs d =
         d[nat r := fold (\<lambda>c ys. ys[nat c := f c]) cs (d ! nat r)]"
  using assms(2)
proof (induction cs arbitrary: d)
  case Nil
  then show ?case by simp
next
  case (Cons c cs)
  let ?d = "store2 d r c (f c)"
  have "nat r < length ?d" using Cons.prems by (simp add: store2_def)
  from Cons.IH[OF this] show ?case
    using Cons.prems by (simp add: store2_def)
qed

definition product_row :: "Matrix \<Rightarrow> Matrix \<Rightarrow> int \<Rightarrow> cint list" where
  "product_row m1 m2 r = map (\<lambda>c. cell_sum m1 m2 r c) [0..col m2 - 1]"

lemma store_row:
  assumes "0 \<le> r" "nat r < length d" "length (d ! nat r) = nat ncol"
  shows "fold (\<lambda>c d. store2 d r c (f c)) [0..ncol - 1] d = d[nat r := map f [0..ncol - 1]]"
proof -
  have "fold (\<lambda>c ys. ys[nat c := f c]) [0..ncol - 1] (d ! nat r)
        = fold (\<lambda>c ys. ys[c := f (int c)]) [0..<nat ncol] (d ! nat r)"
    by (simp add: upto_nat[of 0 ncol] fold_map comp_def)
  also have "\<dots> = map (\<lambda>c. f (int c)) [0..<nat ncol]"
    using fold_update_row[of "nat ncol" "d ! nat r" "\<lambda>c. f (int c)"] assms(3) by simp
  also have "\<dots> = map f [0..ncol - 1]"
    by (simp add: upto_nat[of 0 ncol] comp_def)
  finally show ?thesis
    by (simp add: fold_store2_row[OF assms(1,2)])
qed

lemma fold_rows:
  assumes "a \<le> b" "b \<le> length d"
  shows "fold (\<lambda>r d. d[r := P r]) [a..<b] d = take a d @ map P [a..<b] @ drop b d"
  using assms
proof (induction b)
  case 0
  then show ?case by simp
next
  case (Suc b)
  show ?case
  proof (cases "a = Suc b")
    case True
    then show ?thesis by simp
  next
    case False
    then have ab: "a \<le> b" "b \<le> length d" "b < length d" using Suc.prems by auto
    have "fold (\<lambda>r d. d[r := P r]) [a..<Suc b] d = (take a d @ map P [a..<b] @ drop b d)[b := P b]"
      using Suc.IH[OF ab(1,2)] ab(1) by simp
    also have "\<dots> = take a d @ map P [a..<b] @ (drop b d)[0 := P b]"
      using ab by (simp add: list_update_append)
    also have "(drop b d)[0 := P b] = P b # drop (Suc b) d"
      using ab(3) by (simp add: Cons_nth_drop_Suc[symmetric])
    finally show ?thesis using ab(1) by simp
  qed
qed

lemma child_writes:
  assumes "length buffer = BUF_SIZE"
  shows "list_all2 (\<lambda>w (r, c). length w = BUF_SIZE \<and> atoi w = cell_sum m1 m2 r c)
           (child t m1 m2 buffer) (cells t (col m2))"
proof -
  let ?st = "\<lparr>cbuf = buffer, written = []\<rparr>"
  have "length (cbuf ?st) = BUF_SIZE" using assms by simp
  from child_fold[OF this, of m1 m2 "cells t (col m2)"] show ?thesis
    by (auto simp: child_def fold_product cells_def)
qed

lemma fold_store_received:
  assumes "list_all2 (\<lambda>w (r, c). length w = BUF_SIZE \<and> atoi w = cell_sum m1 m2 r c) ws rcs"
  shows "fold (\<lambda>((r, c), w) d. store2 d r c (atoi w)) (zip rcs ws) d =
         fold (\<lambda>(r, c) d. store2 d r c (cell_sum m1 m2 r c)) rcs d"
  using assms by (induction ws rcs arbitrary: d rule: list_all2_induct) auto

lemma received_lengths:
  "list_all2 (\<lambda>w (r, c). length w = BUF_SIZE \<and> atoi w = cell_sum m1 m2 r c) ws rcs \<Longrightarrow>
   \<forall>w \<in> set ws. length w = BUF_SIZE"
  by (induction ws rcs rule: list_all2_induct) auto

lemma parent_reads:
  assumes "length buffer = BUF_SIZE" "length pbuffer = BUF_SIZE"
  shows "reads (parent t m2 (concat (child t m1 m2 buffer)) pbuffer d) = child t m1 m2 buffer"
    and "ppipe (parent t m2 (concat (child t m1 m2 buffer)) pbuffer d) = []"
    and "pdata (parent t m2 (concat (child t m1 m2 buffer)) pbuffer d) =
           fold (\<lambda>(r, c) d. store2 d r c (cell_sum m1 m2 r c)) (cells t (col m2)) d"
proof -
  let ?ws = "child t m1 m2 buffer"
  let ?st = "\<lparr>pbuf = pbuffer, ppipe = concat ?ws, reads = [], pdata = d\<rparr>"
  note all2 = child_writes[OF assms(1), of m1 m2 t]
  have len: "length (cells t (col m2)) = length ?ws"
    using all2 by (simp add: list_all2_lengthD)
  have sz: "\<forall>w \<in> set ?ws. length w = BUF_SIZE"
    using all2 by (rule received_lengths)
  have "length (pbuf ?st) = BUF_SIZE" "ppipe ?st = concat ?ws @ []"
    using assms(2) by simp_all
  from parent_fold[OF len sz this]
  have p: "parent t m2 (concat ?ws) pbuffer d =
         \<lparr>pbuf = (if ?ws = [] then pbuffer else last ?ws), ppipe = [], reads = ?ws,
            pdata = fold (\<lambda>((r, c), w) d. store2 d r c (atoi w)) (zip (cells t (col m2)) ?ws) d\<rparr>"
    by (simp add: parent_def fold_product cells_def)
  show "reads (parent t m2 (concat ?ws) pbuffer d) = ?ws" by (simp add: p)
  show "ppipe (parent t m2 (concat ?ws) pbuffer d) = []" by (simp add: p)
  show "pdata (parent t m2 (concat ?ws) pbuffer d) =
           fold (\<lambda>(r, c) d. store2 d r c (cell_sum m1 m2 r c)) (cells t (col m2)) d"
    by (simp add: p fold_store_received[OF all2])
qed

lemma fold_store_rows:
  assumes "\<forall>r \<in> set rs. 0 \<le> r \<and> nat r < length d" "\<forall>ys \<in> set d. length ys = nat ncol"
  shows "fold (\<lambda>r. fold (\<lambda>c d. store2 d r c (f r c)) [0..ncol - 1]) rs d =
         fold (\<lambda>r d. d[nat r := map (f r) [0..ncol - 1]]) rs d"
  using assms
proof (induction rs arbitrary: d)
  case Nil
  then show ?case by simp
next
  case (Cons r rs)
  let ?d = "d[nat r := map (f r) [0..ncol - 1]]"
  have r: "0 \<le> r" "nat r < length d" using Cons.prems(1) by auto
  then have "length (d ! nat r) = nat ncol" using Cons.prems(2) by simp
  then have step: "fold (\<lambda>c d. store2 d r c (f r c)) [0..ncol - 1] d = ?d"
    by (rule store_row[OF r])
  have "\<forall>ys \<in> set ?d. length ys = nat ncol"
    using Cons.prems(2) set_update_subset_insert[of d "nat r" "map (f r) [0..ncol - 1]"]
    by auto
  moreover have "\<forall>r \<in> set rs. 0 \<le> r \<and> nat r < length ?d"
    using Cons.prems(1) by simp
  ultimately show ?case using Cons.IH[of ?d] by (simp add: step)
qed

lemma store_cells_rows:
  assumes "0 \<le> start_row t" "start_row t \<le> end_row t" "end_row t \<le> int (length d)"
    "\<forall>ys \<in> set d. length ys = nat (col m2)"
  shows "fold (\<lambda>(r, c) d. store2 d r c (cell_sum m1 m2 r c)) (cells t (col m2)) d =
         take (nat (start_row t)) d @ map (product_row m1 m2) [start_row t..end_row t - 1]
           @ drop (nat (end_row t)) d"
proof -
  let ?s = "start_row t" and ?e = "end_row t"
  have rs: "[?s..?e - 1] = map int [nat ?s..<nat ?e]"
    by (rule upto_nat[OF assms(1)])
  have "\<forall>r \<in> set [?s..?e - 1]. 0 \<le> r \<and> nat r < length d"
    using assms(1,3) by auto
  from fold_store_rows[OF this assms(4), of "cell_sum m1 m2"]
  have "fold (\<lambda>(r, c) d. store2 d r c (cell_sum m1 m2 r c)) (cells t (col m2)) d =
        fold (\<lambda>r d. d[nat r := product_row m1 m2 r]) [?s..?e - 1] d"
    by (simp add: cells_def fold_product[symmetric] product_row_def)
  also have "\<dots> = fold (\<lambda>r d. d[r := product_row m1 m2 (int r)]) [nat ?s..<nat ?e] d"
    by (simp add: rs fold_map comp_def)
  also have "\<dots> = take (nat ?s) d @ map (\<lambda>r. product_row m1 m2 (int r)) [nat ?s..<nat ?e]
                     @ drop (nat ?e) d"
    using assms(1,2,3) by (intro fold_rows) auto
  finally show ?thesis by (simp add: rs comp_def)
qed

lemma thread_rows:
  assumes "pipe_ok e" "fork_ok e" "length (stack e) = BUF_SIZE"
    "0 \<le> start_row t" "start_row t \<le> end_row t" "end_row t \<le> int (length d)"
    "\<forall>ys \<in> set d. length ys = nat (col m2)"
  shows "thread e t m1 m2 d =
         take (nat (start_row t)) d @ map (product_row m1 m2) [start_row t..end_row t - 1]
           @ drop (nat (end_row t)) d"
  using assms(1,2)
  by (simp add: thread_def parent_reads(3)[OF assms(3,3)] store_cells_rows[OF assms(4-7)])

text \<open>
  Claim C8. For every task the child makes one \<open>write\<close> of \<open>BUF_SIZE\<close> bytes for each cell
  \<open>(r, c)\<close> of its rows, in row-major order (\<open>cells\<close>), each holding the text of that cell's
  sum; the parent makes the same number of \<open>read\<close>s, each returning exactly the bytes of the
  matching \<open>write\<close> and leaving nothing in the pipe; and it stores \<open>atoi\<close> of each message,
  which is the sum the child computed, at \<open>m->data[r][c]\<close>, in that order.
\<close>

theorem pipe_protocol:
  assumes "length buffer = BUF_SIZE" and "length pbuffer = BUF_SIZE"
  shows "length (child t m1 m2 buffer) = length (cells t (col m2))
       \<and> list_all2 (\<lambda>w (r, c). length w = BUF_SIZE \<and> atoi w = cell_sum m1 m2 r c)
            (child t m1 m2 buffer) (cells t (col m2))
       \<and> reads (parent t m2 (concat (child t m1 m2 buffer)) pbuffer d) = child t m1 m2 buffer
       \<and> ppipe (parent t m2 (concat (child t m1 m2 buffer)) pbuffer d) = []
       \<and> pdata (parent t m2 (concat (child t m1 m2 buffer)) pbuffer d) =
           fold (\<lambda>(r, c) d. store2 d r c (cell_sum m1 m2 r c)) (cells t (col m2)) d"
proof -
  note w = child_writes[OF assms(1), of m1 m2 t]
  then have "length (child t m1 m2 buffer) = length (cells t (col m2))"
    by (rule list_all2_lengthD)
  with w parent_reads[OF assms, of t m2 m1 d] show ?thesis by simp
qed

text \<open>The matrices of the spec's scenarios A and B.\<close>

definition ex_m1 :: Matrix where
  "ex_m1 = \<lparr>row = 2, col = 2, data = [[1, 2], [3, 4]]\<rparr>"

definition ex_m2 :: Matrix where
  "ex_m2 = \<lparr>row = 2, col = 2, data = [[5, 6], [7, 8]]\<rparr>"

lemma ex_cells: "cells \<lparr>start_row = 0, end_row = 2\<rparr> (col ex_m2) = [(0, 0), (0, 1), (1, 0), (1, 1)]"
  by code_simp

lemma ex_sums:
  "cell_sum ex_m1 ex_m2 0 0 = 19" "cell_sum ex_m1 ex_m2 0 1 = 22"
  "cell_sum ex_m1 ex_m2 1 0 = 43" "cell_sum ex_m1 ex_m2 1 1 = 50"
  by code_simp+

theorem pipe_protocol_witness:
  "length (replicate 1000 NUL) = BUF_SIZE
   \<and> length (child \<lparr>start_row = 0, end_row = 2\<rparr> ex_m1 ex_m2 (replicate 1000 NUL)) = 4
   \<and> reads (parent \<lparr>start_row = 0, end_row = 2\<rparr> ex_m2
        (concat (child \<lparr>start_row = 0, end_row = 2\<rparr> ex_m1 ex_m2 (replicate 1000 NUL)))
        (replicate 1000 NUL) [[0, 0], [0, 0]])
       = child \<lparr>start_row = 0, end_row = 2\<rparr> ex_m1 ex_m2 (replicate 1000 NUL)
   \<and> pdata (parent \<lparr>start_row = 0, end_row = 2\<rparr> ex_m2
        (concat (child \<lparr>start_row = 0, end_row = 2\<rparr> ex_m1 ex_m2 (replicate 1000 NUL)))
        (replicate 1000 NUL) [[0, 0], [0, 0]])
       = [[19, 22], [43, 50]]"
  using pipe_protocol[of "replicate 1000 NUL" "replicate 1000 NUL" "\<lparr>start_row = 0, end_row = 2\<rparr>"
      ex_m1 ex_m2 "[[0, 0], [0, 0]]"]
  by (simp add: BUF_SIZE_def ex_cells ex_sums store2_def)

section \<open>multiply(), write\_result() and the report of main()\<close>

text \<open>
  The program's global variables and what it leaves outside (the console, the file
  result.txt) form the record \<open>world\<close>; \<open>m_result\<close> is the global pointer \<open>m\<close>, \<open>None\<close>
  while it is \<open>NULL\<close>. What the program takes from its surroundings is the record \<open>env\<close>:
  whether each \<open>malloc\<close> and the \<open>fopen\<close> succeed, the contents of freshly allocated memory
  (\<open>heap\<close>: the program does not initialise the rows of \<open>m\<close>), the surroundings of each
  worker, the process id and the two readings of \<open>CLOCK_MONOTONIC\<close>. \<open>console\<close> holds the
  lines that \<open>multiply\<close>, \<open>write_result\<close> and \<open>main\<close> print; the line each worker prints
  after its exchange with /proc/thread\_info is not part of it.

  \<open>multiply\<close> follows the source statement by statement: the dimension check and its early
  return, the allocation of \<open>m\<close> and of its rows, the allocation of the thread and task
  arrays, the line \<open>PID:\<close>, the partition loop that also starts the workers, the join loop,
  the elapsed time \<^verbatim>\<open>totalTime = endTime.tv_sec - startTime.tv_sec\<close> (a \<open>long\<close> stored into
  an \<open>int\<close>), and \<open>write_result\<close>. The test \<^verbatim>\<open>pthread_create(...) == -1\<close> never holds (the
  function returns 0 or a positive error number), so it has no branch here.

  The loop body starts worker \<open>n\<close> on \<^verbatim>\<open>&t[n]\<close> after it has stored \<open>t[n].start_row\<close> and
  before it stores \<open>t[n].end_row\<close>, and the first statement of \<open>thread\<close> copies \<^verbatim>\<open>*param\<close>.
  Which of the copy and the store happens first is decided by the scheduler, so it is
  part of \<open>env\<close>: \<open>copied_early e n = None\<close> when worker \<open>n\<close> copies after the store, and
  \<open>Some g\<close> when it copies before it and finds \<open>g\<close> in the field that \<open>malloc\<close> left
  uninitialised. \<open>param_copy\<close> is the \<open>Task\<close> the worker then works on.

  A worker whose rows leave the matrices (\<open>leaves_matrix\<close>: its loops run at least once,
  with a row index below 0 or not below the row count) reads \<open>m1->data[r]\<close> and
  \<open>m->data[r]\<close> outside their arrays. The C standard leaves that undefined; here the
  process is then killed (\<open>killed\<close>), as a segmentation fault does: nothing after the
  workers runs, and of the state at that moment the record keeps the line \<open>PID:\<close> and the
  allocation of \<open>m\<close>, not the contents of \<open>m\<close> and of the task array, which depend on when
  the fault occurs. Otherwise every worker stores, in the rows it works on, the values of
  \<open>thread\<close>; where two workers work on the same row they store the same values, so the
  combined effect is computed in task order (\<open>run_threads\<close>), and \<open>created\<close> is the task
  array as the loop leaves it.
\<close>

definition LF :: char where
  "LF = CHR 0x0A"

record timespec =
  tv_sec :: int
  tv_nsec :: int

record env =
  malloc_matrix_ok :: bool
  malloc_rows_ok :: bool
  malloc_tasks_ok :: bool
  fopen_ok :: bool
  heap :: "nat \<Rightarrow> nat \<Rightarrow> cint"
  thread_envs :: "nat \<Rightarrow> thread_env"
  copied_early :: "nat \<Rightarrow> int option"
  getpid :: int
  clock_start :: timespec
  clock_end :: timespec

record world =
  console :: "string list"
  m_result :: "Matrix option"
  created :: "Task list"
  totalTime :: cint
  result_txt :: "Matrix option"
  killed :: bool

definition malloc_data :: "env \<Rightarrow> int \<Rightarrow> int \<Rightarrow> cint list list" where
  "malloc_data e nrow ncol = map (\<lambda>r. map (\<lambda>c. heap e r c) [0..<nat ncol]) [0..<nat nrow]"

definition write_result :: "env \<Rightarrow> world \<Rightarrow> world" where
  "write_result e w =
     (if \<not> fopen_ok e
      then w\<lparr>console := console w @ [''Cannot create file result.txt.'' @ [LF]]\<rparr>
      else w\<lparr>result_txt := m_result w\<rparr>)"

definition param_copy :: "env \<Rightarrow> nat \<Rightarrow> Task \<Rightarrow> Task" where
  "param_copy e n t = (case copied_early e n of None \<Rightarrow> t | Some g \<Rightarrow> t\<lparr>end_row := g\<rparr>)"

definition leaves_matrix :: "Task \<Rightarrow> Matrix \<Rightarrow> int \<Rightarrow> bool" where
  "leaves_matrix t m2 rows \<longleftrightarrow>
     start_row t < end_row t \<and> 0 < col m2 \<and> (start_row t < 0 \<or> rows < end_row t)"

fun run_threads ::
  "env \<Rightarrow> Matrix \<Rightarrow> Matrix \<Rightarrow> (nat \<times> Task) list \<Rightarrow> cint list list \<Rightarrow> cint list list option" where
  "run_threads e m1 m2 [] d = Some d"
| "run_threads e m1 m2 ((n, t) # nts) d =
     (if pipe_ok (thread_envs e n) \<and> fork_ok (thread_envs e n)
         \<and> leaves_matrix (param_copy e n t) m2 (row m1)
      then None
      else run_threads e m1 m2 nts (thread (thread_envs e n) (param_copy e n t) m1 m2 d))"

definition multiply :: "env \<Rightarrow> Matrix \<Rightarrow> Matrix \<Rightarrow> int \<Rightarrow> world \<Rightarrow> world" where
  "multiply e m1 m2 n_thread w =
     (if col m1 \<noteq> row m2
      then w\<lparr>console := console w @ [''Cannot do matrix multiplication.'' @ [LF]]\<rparr>
      else if \<not> malloc_matrix_ok e
      then w\<lparr>console := console w @ [''Malloc failed.'' @ [LF]]\<rparr>
      else
        (let m0 = \<lparr>row = row m1, col = col m2, data = malloc_data e (row m1) (col m2)\<rparr>
         in if \<not> (malloc_rows_ok e \<and> malloc_tasks_ok e)
            then w\<lparr>console := console w @ [''Malloc failed.'' @ [LF]], m_result := Some m0\<rparr>
            else
              (let ts = tasks_of (row m0) n_thread;
                   w1 = w\<lparr>console := console w @ [''PID:'' @ sprintf_d (getpid e) @ [LF]]\<rparr>
               in case run_threads e m1 m2 (enumerate 0 ts) (data m0) of
                    None \<Rightarrow> w1\<lparr>m_result := Some m0, killed := True\<rparr>
                  | Some d \<Rightarrow>
                      write_result e
                        (w1\<lparr>m_result := Some (m0\<lparr>data := d\<rparr>),
                            created := ts,
                            totalTime :=
                              word_of_int (tv_sec (clock_end e) - tv_sec (clock_start e))\<rparr>))))"


text \<open>
  A matrix as \<open>load_matric\<close> builds it from a well-formed file: \<open>row\<close> rows of \<open>col\<close> elements.
  \<open>resources_ok\<close>: every allocation, pipe, fork and \<open>fopen\<close> succeeds, every worker's
  \<open>buffer\<close> is the array of \<open>BUF_SIZE\<close> bytes the source declares, and every worker copies
  its \<open>Task\<close> after \<open>end_row\<close> has been stored.
\<close>

definition wf_matrix :: "Matrix \<Rightarrow> bool" where
  "wf_matrix M \<longleftrightarrow> 0 \<le> row M \<and> 0 \<le> col M \<and> length (data M) = nat (row M)
                   \<and> list_all (\<lambda>ys. length ys = nat (col M)) (data M)"

definition resources_ok :: "env \<Rightarrow> bool" where
  "resources_ok e \<longleftrightarrow> malloc_matrix_ok e \<and> malloc_rows_ok e \<and> malloc_tasks_ok e \<and> fopen_ok e
     \<and> (\<forall>n. pipe_ok (thread_envs e n) \<and> fork_ok (thread_envs e n)
              \<and> length (stack (thread_envs e n)) = BUF_SIZE)
     \<and> (\<forall>n. copied_early e n = None)"

text \<open>
  The standard mathematical product, over the integers: entry \<open>(r, c)\<close> is
  \<open>\<Sum>i. m1[r][i] * m2[i][c]\<close>.
\<close>

definition product_entry :: "Matrix \<Rightarrow> Matrix \<Rightarrow> nat \<Rightarrow> nat \<Rightarrow> int" where
  "product_entry m1 m2 r c = (\<Sum>i = 0..<nat (col m1). sint (data m1 ! r ! i) * sint (data m2 ! i ! c))"

definition product_data :: "Matrix \<Rightarrow> Matrix \<Rightarrow> int list list" where
  "product_data m1 m2 =
     map (\<lambda>r. map (\<lambda>c. product_entry m1 m2 r c) [0..<nat (col m2)]) [0..<nat (row m1)]"

text \<open>A task list that starts at row \<open>s\<close>, ends at row \<open>e\<close> and has no gap and no overlap.\<close>

fun chained :: "int \<Rightarrow> Task list \<Rightarrow> int \<Rightarrow> bool" where
  "chained s [] e \<longleftrightarrow> s = e"
| "chained s (t # ts) e \<longleftrightarrow> start_row t = s \<and> s \<le> end_row t \<and> chained (end_row t) ts e"

lemma chained_partition_loop:
  assumes "0 \<le> rows" "0 < N"
  shows "n \<le> N \<Longrightarrow> chained (row_offset rows N n) (partition_loop rows N n (row_offset rows N n)) rows"
proof (induction "nat (N - n)" arbitrary: n)
  case 0
  then have "n = N" by simp
  then show ?case
    using assms by (subst partition_loop.simps) (simp add: row_offset_N)
next
  case (Suc k)
  then have lt: "n < N" by linarith
  have e: "(if n < rows smod N then row_offset rows N n + rows sdiv N + 1
              else row_offset rows N n + rows sdiv N) = row_offset rows N (n + 1)"
    using assms by (simp add: row_offset_step sdiv_nonneg smod_nonneg)
  have "chained (row_offset rows N (n + 1))
          (partition_loop rows N (n + 1) (row_offset rows N (n + 1))) rows"
    using Suc(2) lt by (intro Suc(1)) auto
  then show ?case
    using lt e row_offset_mono_step[OF assms, of n]
    by (subst partition_loop.simps) (simp add: Let_def)
qed

lemma chained_tasks_of:
  "0 \<le> rows \<Longrightarrow> 0 < N \<Longrightarrow> chained 0 (tasks_of rows N) rows"
  using chained_partition_loop[of rows N 0] by (simp add: tasks_of_def row_offset_0)

lemma thread_rows_nat:
  assumes "pipe_ok e" "fork_ok e" "length (stack e) = BUF_SIZE"
    "0 \<le> start_row t" "start_row t \<le> end_row t" "end_row t \<le> int (length d)"
    "\<forall>ys \<in> set d. length ys = nat (col m2)"
  shows "thread e t m1 m2 d =
         take (nat (start_row t)) d
           @ map (\<lambda>r. product_row m1 m2 (int r)) [nat (start_row t)..<nat (end_row t)]
           @ drop (nat (end_row t)) d"
  by (simp add: thread_rows[OF assms] upto_nat[OF assms(4)] comp_def)

lemma length_product_row: "length (product_row m1 m2 r) = nat (col m2)"
  by (simp add: product_row_def)

lemma take_prefix_len: "length xs = n \<Longrightarrow> take n (xs @ ys) = xs"
  by simp

lemma drop_prefix_len: "length xs = n \<Longrightarrow> drop n (xs @ ys) = ys"
  by simp

lemma chained_le: "chained s ts e \<Longrightarrow> s \<le> e"
  by (induction ts arbitrary: s) fastforce+

lemma fold_threads:
  assumes ok: "\<forall>n. pipe_ok (envs n) \<and> fork_ok (envs n) \<and> length (stack (envs n)) = BUF_SIZE"
  shows "chained s ts e \<Longrightarrow> 0 \<le> s \<Longrightarrow> e \<le> int (length d) \<Longrightarrow>
         \<forall>ys \<in> set d. length ys = nat (col m2) \<Longrightarrow>
         fold (\<lambda>(n, t). thread (envs n) t m1 m2) (enumerate k ts) d =
           take (nat s) d @ map (\<lambda>r. product_row m1 m2 (int r)) [nat s..<nat e] @ drop (nat e) d"
proof (induction ts arbitrary: s d k)
  case Nil
  then show ?case by simp
next
  case (Cons t ts)
  let ?P = "\<lambda>r. product_row m1 m2 (int r)"
  let ?e1 = "end_row t"
  let ?d1 = "take (nat s) d @ map ?P [nat s..<nat ?e1] @ drop (nat ?e1) d"
  from Cons.prems(1) have t: "start_row t = s" "s \<le> ?e1" "chained ?e1 ts e" by simp_all
  have le: "?e1 \<le> e" by (rule chained_le[OF t(3)])
  have e1len: "?e1 \<le> int (length d)" using le Cons.prems(3) by simp
  have len1: "length ?d1 = length d" using t(2) Cons.prems(2) e1len by simp
  have shape1: "\<forall>ys \<in> set ?d1. length ys = nat (col m2)"
    using Cons.prems(4) by (auto simp: length_product_row dest: in_set_takeD in_set_dropD)
  have e1: "0 \<le> ?e1" using t(2) Cons.prems(2) by simp
  have ih: "fold (\<lambda>(n, t). thread (envs n) t m1 m2) (enumerate (Suc k) ts) ?d1 =
           take (nat ?e1) ?d1 @ map ?P [nat ?e1..<nat e] @ drop (nat e) ?d1"
    using Cons.prems(3) by (intro Cons.IH[OF t(3) e1 _ shape1]) (simp add: len1)
  have thr: "thread (envs k) t m1 m2 d = ?d1"
    using ok t(1,2) Cons.prems(2,4) e1len
    by (subst thread_rows_nat) auto
  have pre: "length (take (nat s) d @ map ?P [nat s..<nat ?e1]) = nat ?e1"
    using t(2) Cons.prems(2) e1len by simp
  have tk: "take (nat ?e1) ?d1 = take (nat s) d @ map ?P [nat s..<nat ?e1]"
    using take_prefix_len[OF pre, of "drop (nat ?e1) d"] by simp
  have dr1: "drop (nat ?e1) ?d1 = drop (nat ?e1) d"
    using drop_prefix_len[OF pre, of "drop (nat ?e1) d"] by simp
  have ee: "nat e = (nat e - nat ?e1) + nat ?e1" using le e1 by simp
  have "drop (nat e) ?d1 = drop (nat e - nat ?e1) (drop (nat ?e1) ?d1)"
    by (subst ee) (simp only: drop_drop)
  also have "\<dots> = drop (nat e - nat ?e1) (drop (nat ?e1) d)"
    by (simp only: dr1)
  also have "\<dots> = drop (nat e) d"
    using ee by (simp only: drop_drop)
  finally have dr: "drop (nat e) ?d1 = drop (nat e) d" .
  have "[nat s..<nat ?e1 + (nat e - nat ?e1)] = [nat s..<nat ?e1] @ [nat ?e1..<nat ?e1 + (nat e - nat ?e1)]"
    using t(2) Cons.prems(2) by (intro upt_add_eq_append) simp
  then have rng: "[nat s..<nat ?e1] @ [nat ?e1..<nat e] = [nat s..<nat e]"
    using le e1 by simp
  have "fold (\<lambda>(n, t). thread (envs n) t m1 m2) (enumerate k (t # ts)) d =
        fold (\<lambda>(n, t). thread (envs n) t m1 m2) (enumerate (Suc k) ts) (thread (envs k) t m1 m2 d)"
    by simp
  also have "\<dots> = fold (\<lambda>(n, t). thread (envs n) t m1 m2) (enumerate (Suc k) ts) ?d1"
    by (simp only: thr)
  also have "\<dots> = take (nat ?e1) ?d1 @ map ?P [nat ?e1..<nat e] @ drop (nat e) ?d1"
    by (rule ih)
  also have "\<dots> = (take (nat s) d @ map ?P [nat s..<nat ?e1]) @ map ?P [nat ?e1..<nat e] @ drop (nat e) d"
    by (simp only: tk dr)
  also have "\<dots> = take (nat s) d @ map ?P ([nat s..<nat ?e1] @ [nat ?e1..<nat e]) @ drop (nat e) d"
    by (simp only: map_append append_assoc)
  finally show ?case by (simp only: rng)
qed

lemma fold_add: "fold (\<lambda>i (s :: cint). s + g i) [0..<k] s0 = s0 + (\<Sum>i = 0..<k. g i)"
  by (induction k) (simp_all add: add.assoc)

lemma cell_sum_sum:
  "cell_sum m1 m2 (int r) (int c) =
     (\<Sum>i = 0..<nat (col m1). (data m1 ! r ! i) * (data m2 ! i ! c))"
  using fold_add[of "\<lambda>i. (data m1 ! r ! i) * (data m2 ! i ! c)" "nat (col m1)" 0]
  by (simp add: cell_sum_def upto_nat[of 0 "col m1"] fold_map comp_def)

lemma cell_sum_product_entry:
  "cell_sum m1 m2 (int r) (int c) = word_of_int (product_entry m1 m2 r c)"
  by (simp add: cell_sum_sum product_entry_def)

lemma product_row_entries:
  "product_row m1 m2 (int r) = map (\<lambda>c. word_of_int (product_entry m1 m2 r c)) [0..<nat (col m2)]"
  by (simp add: product_row_def upto_nat[of 0 "col m2"] comp_def cell_sum_product_entry)

lemma run_threads_late:
  assumes "\<forall>n. copied_early e n = None"
  shows "chained s ts e2 \<Longrightarrow> 0 \<le> s \<Longrightarrow> e2 \<le> row m1 \<Longrightarrow>
         run_threads e m1 m2 (enumerate k ts) d =
           Some (fold (\<lambda>(n, t). thread (thread_envs e n) t m1 m2) (enumerate k ts) d)"
proof (induction ts arbitrary: s d k)
  case Nil
  then show ?case by simp
next
  case (Cons t ts)
  from Cons.prems(1) have t: "start_row t = s" "s \<le> end_row t" "chained (end_row t) ts e2"
    by simp_all
  have "end_row t \<le> e2" by (rule chained_le[OF t(3)])
  then have inside: "\<not> leaves_matrix t m2 (row m1)"
    using t(1) Cons.prems(2,3) by (simp add: leaves_matrix_def)
  have c: "param_copy e k t = t" using assms by (simp add: param_copy_def)
  have "0 \<le> end_row t" using t(2) Cons.prems(2) by simp
  from Cons.IH[OF t(3) this Cons.prems(3)] show ?case
    by (simp add: c inside)
qed

text \<open>
  Every run that passes the join loop, whatever its workers copied, stores the difference
  of the two \<open>tv_sec\<close> fields as the elapsed time and goes on to \<open>write_result\<close>.
\<close>

lemma multiply_joined:
  assumes "col m1 = row m2" and "malloc_matrix_ok e" and "malloc_rows_ok e" and "malloc_tasks_ok e"
    and "run_threads e m1 m2 (enumerate 0 (tasks_of (row m1) n_thread))
           (malloc_data e (row m1) (col m2)) = Some d"
  shows "totalTime (multiply e m1 m2 n_thread w) =
           word_of_int (tv_sec (clock_end e) - tv_sec (clock_start e))"
    and "m_result (multiply e m1 m2 n_thread w) = Some \<lparr>row = row m1, col = col m2, data = d\<rparr>"
    and "created (multiply e m1 m2 n_thread w) = tasks_of (row m1) n_thread"
    and "killed (multiply e m1 m2 n_thread w) = killed w"
    and "fopen_ok e \<Longrightarrow> result_txt (multiply e m1 m2 n_thread w) =
           Some \<lparr>row = row m1, col = col m2, data = d\<rparr>"
  using assms by (simp_all add: multiply_def Let_def write_result_def)

lemma multiply_ok:
  assumes "0 \<le> row m1" "col m1 = row m2" "1 \<le> n_thread" "resources_ok e"
  shows "multiply e m1 m2 n_thread w =
     w\<lparr>console := console w @ [''PID:'' @ sprintf_d (getpid e) @ [LF]],
       m_result := Some \<lparr>row = row m1, col = col m2, data = map (map word_of_int) (product_data m1 m2)\<rparr>,
       created := tasks_of (row m1) n_thread,
       totalTime := word_of_int (tv_sec (clock_end e) - tv_sec (clock_start e)),
       result_txt := Some \<lparr>row = row m1, col = col m2, data = map (map word_of_int) (product_data m1 m2)\<rparr>\<rparr>"
proof -
  let ?d0 = "malloc_data e (row m1) (col m2)"
  let ?ts = "tasks_of (row m1) n_thread"
  have ok: "\<forall>n. pipe_ok (thread_envs e n) \<and> fork_ok (thread_envs e n)
              \<and> length (stack (thread_envs e n)) = BUF_SIZE"
    using assms(4) by (simp add: resources_ok_def)
  have ch: "chained 0 ?ts (row m1)"
    using assms(1,3) by (intro chained_tasks_of) auto
  have len: "row m1 \<le> int (length ?d0)" using assms(1) by (simp add: malloc_data_def)
  have shape: "\<forall>ys \<in> set ?d0. length ys = nat (col m2)" by (auto simp: malloc_data_def)
  have "fold (\<lambda>(n, t). thread (thread_envs e n) t m1 m2) (enumerate 0 ?ts) ?d0 =
        take (nat 0) ?d0 @ map (\<lambda>r. product_row m1 m2 (int r)) [nat 0..<nat (row m1)]
          @ drop (nat (row m1)) ?d0"
    by (rule fold_threads[OF ok ch _ len shape]) simp
  also have "\<dots> = map (map word_of_int) (product_data m1 m2)"
    by (simp add: malloc_data_def product_row_entries product_data_def comp_def)
  finally have d: "fold (\<lambda>(n, t). thread (thread_envs e n) t m1 m2) (enumerate 0 ?ts) ?d0 =
        map (map word_of_int) (product_data m1 m2)" .
  have late: "\<forall>n. copied_early e n = None" using assms(4) by (simp add: resources_ok_def)
  have "run_threads e m1 m2 (enumerate 0 ?ts) ?d0 = Some (map (map word_of_int) (product_data m1 m2))"
    using run_threads_late[OF late ch, of m1 m2 0 ?d0] by (simp add: d)
  then show ?thesis
    using assms(2,4) by (simp add: multiply_def Let_def resources_ok_def write_result_def)
qed

definition ok_env :: env where
  "ok_env = \<lparr>malloc_matrix_ok = True, malloc_rows_ok = True, malloc_tasks_ok = True,
     fopen_ok = True, heap = (\<lambda>r c. 0),
     thread_envs = (\<lambda>n. \<lparr>pipe_ok = True, fork_ok = True, stack = replicate 1000 NUL\<rparr>),
     copied_early = (\<lambda>n. None),
     getpid = 4242,
     clock_start = \<lparr>tv_sec = 1, tv_nsec = 900000000\<rparr>,
     clock_end = \<lparr>tv_sec = 2, tv_nsec = 100000000\<rparr>\<rparr>"

definition w0 :: world where
  "w0 = \<lparr>console = [], m_result = None, created = [], totalTime = 0, result_txt = None,
          killed = False\<rparr>"

definition big_m1 :: Matrix where
  "big_m1 = \<lparr>row = 1, col = 2148, data = [replicate 2148 1000]\<rparr>"

definition big_m2 :: Matrix where
  "big_m2 = \<lparr>row = 2148, col = 1, data = replicate 2148 [1000]\<rparr>"

lemma sint_word_of_int32:
  "sint (word_of_int x :: cint) = (x + 2147483648) mod 4294967296 - 2147483648"
  by (simp add: int_word_sint)

lemma sint_word_of_int_in_range:
  "- (2 ^ 31) \<le> x \<Longrightarrow> x < 2 ^ 31 \<Longrightarrow> sint (word_of_int x :: cint) = x"
  by (simp add: sint_word_of_int32)

lemma resources_ok_env: "resources_ok ok_env"
  by (simp add: resources_ok_def ok_env_def BUF_SIZE_def)

lemma map_sint_in_range:
  assumes "list_all (list_all (\<lambda>x. - (2 ^ 31) \<le> x \<and> x < 2 ^ 31)) P"
  shows "map (map sint) (map (map (word_of_int :: int \<Rightarrow> cint)) P) = P"
proof -
  have "map sint (map (word_of_int :: int \<Rightarrow> cint) xs) = xs"
    if "list_all (\<lambda>x. - (2 ^ 31) \<le> x \<and> x < 2 ^ 31) xs" for xs
    using that by (induction xs) (simp_all add: sint_word_of_int_in_range)
  then show ?thesis using assms by (induction P) simp_all
qed

text \<open>
  The runs in which every worker copies its \<open>Task\<close> after \<open>end_row\<close> has been stored, and the
  allocations, pipes and forks succeed (\<open>resources_ok\<close>). For all well-formed matrices with
  \<open>col m1 = row m2\<close> and every worker count \<open>n_thread \<ge> 1\<close> (so also every one in
  \<open>[1, row m1 + 5]\<close>), the matrix \<open>multiply\<close> then leaves in \<open>m\<close> and writes to result.txt is
  the standard product with every entry reduced to a 32-bit two's complement \<open>int\<close>. It
  does not depend on \<open>n_thread\<close>, nor on what the allocated memory and the buffers held
  before. Whenever every entry of the standard product lies in \<open>[-2^31, 2^31)\<close>, the output
  is the standard product itself.
\<close>

lemma multiply_product:
  assumes "wf_matrix m1" and "wf_matrix m2" and "col m1 = row m2" and "1 \<le> n_thread"
    and "resources_ok e"
  shows "m_result (multiply e m1 m2 n_thread w) =
           Some \<lparr>row = row m1, col = col m2, data = map (map word_of_int) (product_data m1 m2)\<rparr>
       \<and> result_txt (multiply e m1 m2 n_thread w) = m_result (multiply e m1 m2 n_thread w)
       \<and> (list_all (list_all (\<lambda>x. - (2 ^ 31) \<le> x \<and> x < 2 ^ 31)) (product_data m1 m2) \<longrightarrow>
            map (map sint) (data (the (m_result (multiply e m1 m2 n_thread w)))) = product_data m1 m2)"
proof -
  have "0 \<le> row m1" using assms(1) by (simp add: wf_matrix_def)
  note m = multiply_ok[OF this assms(3-5), of w]
  have "map (map sint) (data (the (m_result (multiply e m1 m2 n_thread w)))) = product_data m1 m2"
    if "list_all (list_all (\<lambda>x. - (2 ^ 31) \<le> x \<and> x < 2 ^ 31)) (product_data m1 m2)"
    using map_sint_in_range[OF that] by (simp only: m) simp
  then show ?thesis by (simp add: m)
qed

lemma ex_product_data: "product_data ex_m1 ex_m2 = [[19, 22], [43, 50]]"
  by (simp add: product_data_def product_entry_def ex_m1_def ex_m2_def
      upt_conv_Cons numeral_2_eq_2 sum.atLeast_Suc_lessThan)

lemma multiply_product_example:
  "wf_matrix ex_m1 \<and> wf_matrix ex_m2 \<and> col ex_m1 = row ex_m2 \<and> (1::int) \<le> 4 \<and> resources_ok ok_env
   \<and> m_result (multiply ok_env ex_m1 ex_m2 4 w0) = Some \<lparr>row = 2, col = 2, data = [[19, 22], [43, 50]]\<rparr>
   \<and> m_result (multiply ok_env ex_m1 ex_m2 1 w0) = Some \<lparr>row = 2, col = 2, data = [[19, 22], [43, 50]]\<rparr>
   \<and> map (map sint) (data (the (m_result (multiply ok_env ex_m1 ex_m2 4 w0)))) = [[19, 22], [43, 50]]"
proof -
  have wf: "wf_matrix ex_m1" "wf_matrix ex_m2" "col ex_m1 = row ex_m2"
    by (simp_all add: wf_matrix_def ex_m1_def ex_m2_def)
  have r: "list_all (list_all (\<lambda>x. - (2 ^ 31) \<le> x \<and> x < 2 ^ 31)) (product_data ex_m1 ex_m2)"
    by (simp add: ex_product_data)
  have d: "row ex_m1 = 2" "col ex_m2 = 2" by (simp_all add: ex_m1_def ex_m2_def)
  show ?thesis
    using multiply_product[OF wf(1,2,3) _ resources_ok_env, of 4 w0]
      multiply_product[OF wf(1,2,3) _ resources_ok_env, of 1 w0] wf r
    by (simp add: resources_ok_env ex_product_data d)
qed

text \<open>
  In those runs the output differs from the standard product only where a sum leaves the
  range of \<open>int\<close>: a row of 2148 elements 1000 times a column of 2148 elements 1000 (all
  elements within the range 1..1000 of the input format) has the product 2148000000,
  above \<open>INT_MAX = 2147483647\<close>; the program stores \<open>-2146967296\<close>.
\<close>

lemma big_product_entry: "product_entry big_m1 big_m2 0 0 = 2148000000"
proof -
  have "product_entry big_m1 big_m2 0 0 = (\<Sum>i = 0..<(2148::nat). sint (1000 :: cint) * sint (1000 :: cint))"
    unfolding product_entry_def by (rule sum.cong) (simp_all add: big_m1_def big_m2_def)
  then show ?thesis by simp
qed

lemma multiply_overflow_example:
  "wf_matrix big_m1 \<and> wf_matrix big_m2 \<and> col big_m1 = row big_m2
   \<and> product_data big_m1 big_m2 = [[2148000000]]
   \<and> map (map sint) (data (the (m_result (multiply ok_env big_m1 big_m2 1 w0)))) = [[- 2146967296]]"
proof -
  have wf: "wf_matrix big_m1" "wf_matrix big_m2" "col big_m1 = row big_m2"
    by (simp_all add: wf_matrix_def big_m1_def big_m2_def list_all_length)
  have "0 \<le> row big_m1" by (simp add: big_m1_def)
  note m = multiply_ok[OF this wf(3) _ resources_ok_env, of 1 w0]
  have pd: "product_data big_m1 big_m2 = [[2148000000]]"
    using big_product_entry by (simp add: product_data_def big_m1_def big_m2_def)
  show ?thesis using wf pd m by (simp add: sint_word_of_int32)
qed

text \<open>
  The runs in which a worker copies its \<open>Task\<close> before \<open>end_row\<close> has been stored.
  \<open>race_env g\<close> is \<open>ok_env\<close> with every worker copying early and finding \<open>g\<close> in the field,
  and with 7 in every cell of the rows that \<open>malloc\<close> returns for \<open>m\<close>.
\<close>

definition race_env :: "int \<Rightarrow> env" where
  "race_env g = ok_env\<lparr>heap := (\<lambda>r c. 7), copied_early := (\<lambda>n. Some g)\<rparr>"

lemma tasks_of_2_1: "tasks_of 2 1 = [\<lparr>start_row = 0, end_row = 2\<rparr>]"
  by code_simp

lemma malloc_data_race: "malloc_data (race_env g) 2 2 = [[7, 7], [7, 7]]"
  by (simp add: malloc_data_def race_env_def upt_conv_Cons numeral_2_eq_2)

lemma race_thread_env:
  "pipe_ok (thread_envs (race_env g) n)" "fork_ok (thread_envs (race_env g) n)"
  "length (stack (thread_envs (race_env g) n)) = BUF_SIZE"
  by (simp_all add: race_env_def ok_env_def BUF_SIZE_def)

lemma race_param_copy:
  "param_copy (race_env g) n t = t\<lparr>end_row := g\<rparr>"
  by (simp add: param_copy_def race_env_def)

lemma product_row_ex: "product_row ex_m1 ex_m2 0 = [19, 22]"
  by (simp add: product_row_def ex_sums ex_m2_def[THEN arg_cong, of col] upto_rec1)

lemma race_thread_0:
  "thread (thread_envs (race_env g) n) \<lparr>start_row = 0, end_row = 0\<rparr> ex_m1 ex_m2 [[7, 7], [7, 7]]
     = [[7, 7], [7, 7]]"
  using thread_rows_nat[OF race_thread_env, of "\<lparr>start_row = 0, end_row = 0\<rparr>" "[[7, 7], [7, 7]]" ex_m2 g n ex_m1]
  by (simp add: ex_m2_def[THEN arg_cong, of col])

lemma race_thread_1:
  "thread (thread_envs (race_env g) n) \<lparr>start_row = 0, end_row = 1\<rparr> ex_m1 ex_m2 [[7, 7], [7, 7]]
     = [[19, 22], [7, 7]]"
  using thread_rows_nat[OF race_thread_env, of "\<lparr>start_row = 0, end_row = 1\<rparr>" "[[7, 7], [7, 7]]" ex_m2 g n ex_m1]
  by (simp add: ex_m2_def[THEN arg_cong, of col] product_row_ex)

lemma race_run_threads:
  "run_threads (race_env 0) ex_m1 ex_m2 [(0, \<lparr>start_row = 0, end_row = 2\<rparr>)] [[7, 7], [7, 7]]
     = Some [[7, 7], [7, 7]]"
  "run_threads (race_env 1) ex_m1 ex_m2 [(0, \<lparr>start_row = 0, end_row = 2\<rparr>)] [[7, 7], [7, 7]]
     = Some [[19, 22], [7, 7]]"
  "run_threads (race_env 5) ex_m1 ex_m2 [(0, \<lparr>start_row = 0, end_row = 2\<rparr>)] [[7, 7], [7, 7]]
     = None"
  by (simp_all add: race_param_copy race_thread_env leaves_matrix_def race_thread_0 race_thread_1
      ex_m1_def[THEN arg_cong, of row] ex_m2_def[THEN arg_cong, of col])

lemma race_world:
  "malloc_matrix_ok (race_env g)" "malloc_rows_ok (race_env g)" "malloc_tasks_ok (race_env g)"
  "fopen_ok (race_env g)" "row ex_m1 = 2" "col ex_m1 = 2" "row ex_m2 = 2" "col ex_m2 = 2"
  by (simp_all add: race_env_def ok_env_def ex_m1_def ex_m2_def)

text \<open>
  Claim C1. The claim is that for matrices with \<open>col m1 = row m2\<close> and every worker count
  the output of \<open>multiply\<close> is the standard product. The code does not guarantee it: the
  worker is started before its \<open>end_row\<close> is stored. For the matrices of scenario A, whose
  product is \<open>[[19, 22], [43, 50]]\<close>, and one worker, whose \<open>Task\<close> is rows 0 to 2: a worker
  that copies early and finds 1 computes row 0 only, so that \<open>m\<close> and result.txt hold
  \<open>[[19, 22], [7, 7]]\<close>, the second row being what \<open>malloc\<close> left there; one that finds 0
  computes nothing and result.txt holds \<open>[[7, 7], [7, 7]]\<close>; one that finds 5 reads rows 2
  to 4 outside the matrices, and the process is killed before result.txt is written.
\<close>

theorem multiply_task_race:
  "product_data ex_m1 ex_m2 = [[19, 22], [43, 50]]
   \<and> created (multiply (race_env 1) ex_m1 ex_m2 1 w0) = [\<lparr>start_row = 0, end_row = 2\<rparr>]
   \<and> m_result (multiply (race_env 1) ex_m1 ex_m2 1 w0)
       = Some \<lparr>row = 2, col = 2, data = [[19, 22], [7, 7]]\<rparr>
   \<and> result_txt (multiply (race_env 1) ex_m1 ex_m2 1 w0)
       = Some \<lparr>row = 2, col = 2, data = [[19, 22], [7, 7]]\<rparr>
   \<and> result_txt (multiply (race_env 0) ex_m1 ex_m2 1 w0)
       = Some \<lparr>row = 2, col = 2, data = [[7, 7], [7, 7]]\<rparr>
   \<and> killed (multiply (race_env 5) ex_m1 ex_m2 1 w0)
   \<and> result_txt (multiply (race_env 5) ex_m1 ex_m2 1 w0) = None"
  by (simp add: ex_product_data multiply_def Let_def race_world tasks_of_2_1 malloc_data_race
      race_run_threads write_result_def w0_def del: run_threads.simps)

definition c_m1 :: Matrix where
  "c_m1 = \<lparr>row = 2, col = 3, data = [[1, 2, 3], [4, 5, 6]]\<rparr>"

text \<open>
  Claim C9. If \<open>col m1 \<noteq> row m2\<close>, \<open>multiply\<close> prints its error message and returns at once:
  the world is as before but for that line on the console. In particular \<open>m\<close> is not
  allocated, no worker is created, nothing is computed, the elapsed time is not set, and
  \<open>write_result\<close> is not reached, so no result file is produced.
\<close>

theorem multiply_dimension_mismatch:
  assumes "col m1 \<noteq> row m2"
  shows "multiply e m1 m2 n_thread w =
           w\<lparr>console := console w @ [''Cannot do matrix multiplication.'' @ [LF]]\<rparr>
       \<and> m_result (multiply e m1 m2 n_thread w) = m_result w
       \<and> created (multiply e m1 m2 n_thread w) = created w
       \<and> result_txt (multiply e m1 m2 n_thread w) = result_txt w
       \<and> totalTime (multiply e m1 m2 n_thread w) = totalTime w"
  using assms by (simp add: multiply_def)

theorem multiply_dimension_mismatch_witness:
  "col c_m1 \<noteq> row ex_m2
   \<and> multiply ok_env c_m1 ex_m2 2 w0 = w0\<lparr>console := [''Cannot do matrix multiplication.'' @ [LF]]\<rparr>
   \<and> m_result (multiply ok_env c_m1 ex_m2 2 w0) = None
   \<and> created (multiply ok_env c_m1 ex_m2 2 w0) = []
   \<and> result_txt (multiply ok_env c_m1 ex_m2 2 w0) = None"
proof -
  have ne: "col c_m1 \<noteq> row ex_m2" by (simp add: c_m1_def ex_m2_def)
  from multiply_dimension_mismatch[OF ne, of ok_env 2 w0] ne show ?thesis
    by (simp add: w0_def)
qed








section \<open>My\_proc.c: the handler of /proc/thread\_info\<close>

text \<open>
  The module's state is the array \<open>procfs_buffer\<close> of \<open>PROCFS_MAX_SIZE\<close> bytes and the
  \<open>ssize_t\<close> \<open>procfs_buffer_size\<close>. A \<open>task_struct\<close> carries the fields the handler reads:
  \<open>pid\<close> (an \<open>int\<close>), \<open>utime\<close> (a \<open>u64\<close>), \<open>nvcsw\<close> and \<open>nivcsw\<close> (\<open>unsigned long\<close>, 64 bits).
  The process table is the list of the tasks that \<open>list_for_each\<close> visits from \<open>init_task\<close>,
  in that order; the loop stops at the first task whose \<open>pid\<close> matches.

  \<open>kstrtoint\<close> with base 10 is the kernel's: an optional sign (\<open>-\<close>, or \<open>+\<close>), at least one
  decimal digit, at most one line feed after the digits, then the end of the string, and
  a value in the range of \<open>int\<close>; \<open>None\<close> is any of its error returns. \<open>copy_from_user\<close>
  copies \<open>n\<close> bytes from the readable user memory \<open>from\<close>; where the user memory ends
  before \<open>n\<close> bytes it zero-fills the rest and reports the bytes not copied.

  \<open>procfile_write\<close> returns \<open>None\<close> if a store leaves the array \<open>procfs_buffer\<close> (the copy,
  the terminating NUL or the \<open>sprintf\<close>), and otherwise the new state, the return value and
  the new file offset. The virtual file system limits \<open>len\<close> to \<open>MAX_RW_COUNT < 2^31\<close>, so
  \<^verbatim>\<open>procfs_buffer_size = len\<close> does not wrap. \<open>procfile_read\<close> never looks at its
  \<open>buffer_length\<close>; \<open>writable\<close> is the number of bytes the user memory at \<open>buffer\<close> can take,
  and the result is the return value, the bytes delivered and the new offset.
\<close>

definition PROCFS_MAX_SIZE :: nat where
  "PROCFS_MAX_SIZE = 1024"

definition EFAULT :: int where
  "EFAULT = 14"

record task_struct =
  pid :: cint
  utime :: "64 word"
  nvcsw :: "64 word"
  nivcsw :: "64 word"

record procfs =
  procfs_buffer :: "char list"
  procfs_buffer_size :: int

definition kstrtoint :: "string \<Rightarrow> cint option" where
  "kstrtoint s =
     (let neg = (s \<noteq> [] \<and> hd s = CHR ''-'');
          s1 = (if s \<noteq> [] \<and> (hd s = CHR ''-'' \<or> hd s = CHR ''+'') then tl s else s);
          v = int (fst (parse_digits 0 s1));
          rest = snd (parse_digits 0 s1);
          i = (if neg then - v else v)
      in if length rest = length s1 then None
         else if rest \<noteq> [] \<and> rest \<noteq> [LF] then None
         else if i < - (2 ^ 31) \<or> 2 ^ 31 - 1 < i then None
         else Some (word_of_int i))"

definition copy_from_user :: "char list \<Rightarrow> char list \<Rightarrow> nat \<Rightarrow> char list \<times> nat" where
  "copy_from_user to from n =
     (let k = min n (length from)
      in (take k from @ replicate (n - k) NUL @ drop n to, n - k))"

definition record_text :: "task_struct \<Rightarrow> string" where
  "record_text p =
     ''ThreadID:'' @ sprintf_d (sint (pid p))
     @ '' Time:'' @ sprintf_d (sint (utime p div 1000 div 1000))
     @ ''(ms) context switch times:'' @ sprintf_d (sint (nvcsw p + nivcsw p))
     @ [LF]"

definition write_size :: "nat \<Rightarrow> int" where
  "write_size len = (if int PROCFS_MAX_SIZE < int len then int PROCFS_MAX_SIZE else int len)"

definition terminator_index :: "int \<Rightarrow> nat" where
  "terminator_index sz = nat (sz AND (int PROCFS_MAX_SIZE - 1))"

definition procfile_write ::
  "task_struct list \<Rightarrow> procfs \<Rightarrow> char list \<Rightarrow> nat \<Rightarrow> int \<Rightarrow> (procfs \<times> int \<times> int) option" where
  "procfile_write tasks st buff len off =
     (let sz = write_size len
      in if length (procfs_buffer st) < nat sz then None
         else
           (let (b1, left) = copy_from_user (procfs_buffer st) buff (nat sz)
            in if left \<noteq> 0
               then Some (\<lparr>procfs_buffer = b1, procfs_buffer_size = sz\<rparr>, - EFAULT, off)
               else if length b1 \<le> terminator_index sz then None
               else
                 (let b2 = b1[terminator_index sz := NUL];
                      off' = off + sz
                  in case kstrtoint (c_string b2) of
                       None \<Rightarrow> Some (\<lparr>procfs_buffer = b2, procfs_buffer_size = sz\<rparr>, 0, off')
                     | Some ident \<Rightarrow>
                         (case find (\<lambda>p. pid p = ident) tasks of
                            None \<Rightarrow>
                              Some (\<lparr>procfs_buffer = b2, procfs_buffer_size = sz\<rparr>, sz, off')
                          | Some p \<Rightarrow>
                              if length b2 < Suc (length (record_text p)) then None
                              else Some (\<lparr>procfs_buffer = sprintf_buf b2 (record_text p),
                                          procfs_buffer_size = int (length (record_text p))\<rparr>,
                                         int (length (record_text p)), off')))))"

text \<open>The buffer as the handler parses it: after the copy and the terminating NUL.\<close>

definition received :: "procfs \<Rightarrow> char list \<Rightarrow> nat \<Rightarrow> char list" where
  "received st buff len =
     (fst (copy_from_user (procfs_buffer st) buff (nat (write_size len))))
       [terminator_index (write_size len) := NUL]"

definition procfile_read :: "procfs \<Rightarrow> nat \<Rightarrow> nat \<Rightarrow> int \<Rightarrow> (int \<times> char list \<times> int) option" where
  "procfile_read st writable buffer_length offset =
     (let len = procfs_buffer_size st
      in if len \<le> offset then Some (0, [], offset)
         else if length (procfs_buffer st) < nat len then None
         else if writable < nat len
         then Some (0, take writable (procfs_buffer st), offset)
         else Some (len, take (nat len) (procfs_buffer st), offset + len))"


lemma write_size_min: "write_size len = int (min len PROCFS_MAX_SIZE)"
  by (simp add: write_size_def)

lemma and_1023: "0 \<le> (s::int) \<Longrightarrow> s < 1024 \<Longrightarrow> s AND 1023 = s"
proof -
  assume s: "0 \<le> s" "s < 1024"
  have "s AND 1023 = s AND mask 10" by (simp add: mask_eq_exp_minus_1)
  also have "\<dots> = take_bit 10 s" by (simp add: take_bit_eq_mask)
  also have "\<dots> = s" using s by (simp add: take_bit_int_eq_self)
  finally show ?thesis .
qed

lemma terminator_index_small: "len < PROCFS_MAX_SIZE \<Longrightarrow> terminator_index (write_size len) = len"
  by (simp add: terminator_index_def write_size_def PROCFS_MAX_SIZE_def and_1023)

lemma terminator_index_full: "PROCFS_MAX_SIZE \<le> len \<Longrightarrow> terminator_index (write_size len) = 0"
  by (simp add: terminator_index_def write_size_def PROCFS_MAX_SIZE_def)

lemma terminator_index_bound: "terminator_index (write_size len) < PROCFS_MAX_SIZE"
  using terminator_index_small[of len] terminator_index_full[of len]
  by (cases "len < PROCFS_MAX_SIZE") (simp_all add: PROCFS_MAX_SIZE_def)

lemma length_sprintf_d_le:
  assumes "- (10 ^ k) < i" "i < 10 ^ k" "0 < k"
  shows "length (sprintf_d i) \<le> Suc k"
proof (cases "i < 0")
  case True
  have "int (nat (- i)) < int (10 ^ k)" using assms(1) True by simp
  then have "nat (- i) < 10 ^ k" by (simp only: of_nat_less_iff)
  then have "length (digits (nat (- i))) \<le> k" using assms(3) by (rule length_digits_le)
  then show ?thesis using True by (simp add: sprintf_d_def)
next
  case False
  have "int (nat i) < int (10 ^ k)" using assms(2) False by simp
  then have "nat i < 10 ^ k" by (simp only: of_nat_less_iff)
  then have "length (digits (nat i)) \<le> k" using assms(3) by (rule length_digits_le)
  then show ?thesis using False by (simp add: sprintf_d_def)
qed

lemma length_sprintf_d64: "length (sprintf_d (sint (w :: 64 word))) \<le> 20"
proof -
  have "- (2 ^ 63) \<le> sint w" "sint w < 2 ^ 63"
    using sint_ge[of w] sint_lt[of w] by simp_all
  then have "- (10 ^ 19) < sint w" "sint w < 10 ^ 19" by simp_all
  then show ?thesis using length_sprintf_d_le[of 19 "sint w"] by simp
qed

lemma length_record_text: "length (record_text p) \<le> 93"
  using length_sprintf_d[of "pid p"] length_sprintf_d64[of "utime p div 1000 div 1000"]
    length_sprintf_d64[of "nvcsw p + nivcsw p"]
  by (simp add: record_text_def)

lemma length_sprintf_d_pos: "Suc 0 \<le> length (sprintf_d i)"
  using digits_nonempty[of "nat i"] by (cases "digits (nat i)") (auto simp: sprintf_d_def)

lemma length_record_text_ge: "45 \<le> length (record_text p)"
  using length_sprintf_d_pos[of "sint (pid p)"]
    length_sprintf_d_pos[of "sint (utime p div 1000 div 1000)"]
    length_sprintf_d_pos[of "sint (nvcsw p + nivcsw p)"]
  by (simp add: record_text_def)

lemma NUL_notin_record_text: "NUL \<notin> set (record_text p)"
  using NUL_notin_sprintf_d by (simp add: record_text_def NUL_def LF_def)


lemma kstrtoint_examples:
  "kstrtoint ''1234'' = Some 1234" "kstrtoint (''1234'' @ [LF]) = Some 1234"
  "kstrtoint (''-12'' @ [LF]) = Some (- 12)" "kstrtoint (''+12'' @ [LF, LF]) = None"
  "kstrtoint ''-+12'' = None" "kstrtoint [] = None" "kstrtoint ''12a'' = None"
  by code_simp+

lemma length_copy_from_user:
  "n \<le> length to \<Longrightarrow> length (fst (copy_from_user to from n)) = length to"
  by (simp add: copy_from_user_def Let_def)

lemma snd_copy_from_user: "snd (copy_from_user to from n) = n - length from"
  by (simp add: copy_from_user_def Let_def)

lemma fst_copy_from_user_readable:
  "n \<le> length from \<Longrightarrow> fst (copy_from_user to from n) = take n from @ drop n to"
  by (simp add: copy_from_user_def Let_def min_absorb1)

lemma nat_write_size: "nat (write_size len) = min len PROCFS_MAX_SIZE"
  by (simp add: write_size_min)

lemma length_received:
  "length (procfs_buffer st) = PROCFS_MAX_SIZE \<Longrightarrow> length (received st buff len) = PROCFS_MAX_SIZE"
  by (simp add: received_def nat_write_size length_copy_from_user)


lemma procfile_write_readable:
  assumes "length (procfs_buffer st) = PROCFS_MAX_SIZE" "min len PROCFS_MAX_SIZE \<le> length buff"
  shows "procfile_write tasks st buff len off =
     (case kstrtoint (c_string (received st buff len)) of
        None \<Rightarrow> Some (\<lparr>procfs_buffer = received st buff len, procfs_buffer_size = write_size len\<rparr>,
                      0, off + write_size len)
      | Some ident \<Rightarrow>
          (case find (\<lambda>p. pid p = ident) tasks of
             None \<Rightarrow> Some (\<lparr>procfs_buffer = received st buff len, procfs_buffer_size = write_size len\<rparr>,
                           write_size len, off + write_size len)
           | Some p \<Rightarrow> Some (\<lparr>procfs_buffer = sprintf_buf (received st buff len) (record_text p),
                               procfs_buffer_size = int (length (record_text p))\<rparr>,
                             int (length (record_text p)), off + write_size len)))"
proof -
  let ?c = "copy_from_user (procfs_buffer st) buff (min len PROCFS_MAX_SIZE)"
  have left: "snd ?c = 0" using assms(2) by (simp add: snd_copy_from_user)
  have len1: "length (fst ?c) = PROCFS_MAX_SIZE"
    using assms(1) by (simp add: length_copy_from_user)
  have idx: "\<not> length (fst ?c) \<le> terminator_index (write_size len)"
    using terminator_index_bound[of len] len1 by simp
  have fit: "\<not> length (received st buff len) < Suc (length (record_text p))" for p
    using length_record_text[of p] length_received[OF assms(1), of buff len]
    by (simp add: PROCFS_MAX_SIZE_def)
  have r: "(fst ?c)[terminator_index (write_size len) := NUL] = received st buff len"
    by (simp add: received_def nat_write_size)
  show ?thesis
    using assms(1) left idx
    by (simp add: procfile_write_def Let_def nat_write_size split_beta r fit
        split: option.splits)
qed

lemma c_string_append_NUL: "c_string (xs @ NUL # ys) = c_string xs"
proof (cases "NUL \<in> set xs")
  case True
  then show ?thesis by (simp add: c_string_def takeWhile_append1)
next
  case False
  then show ?thesis by (auto simp: c_string_def takeWhile_tail)
qed

lemma received_small:
  assumes "length (procfs_buffer st) = PROCFS_MAX_SIZE" "len < PROCFS_MAX_SIZE" "len \<le> length buff"
  shows "received st buff len = take len buff @ NUL # drop (Suc len) (procfs_buffer st)"
proof -
  have "received st buff len = (take len buff @ drop len (procfs_buffer st))[len := NUL]"
    using assms(2,3)
    by (simp add: received_def nat_write_size terminator_index_small fst_copy_from_user_readable
        min_absorb1)
  also have "\<dots> = take len buff @ (drop len (procfs_buffer st))[0 := NUL]"
    using assms(3) by (simp add: list_update_append)
  also have "(drop len (procfs_buffer st))[0 := NUL] = NUL # drop (Suc len) (procfs_buffer st)"
    using assms(1,2) by (simp add: Cons_nth_drop_Suc[symmetric])
  finally show ?thesis .
qed


lemma kstrtoint_Nil: "kstrtoint [] = None"
  by (simp add: kstrtoint_def)

text \<open>A fresh module (the array is zero-initialised) and a small process table.\<close>

definition st0 :: procfs where
  "st0 = \<lparr>procfs_buffer = replicate 1024 NUL, procfs_buffer_size = 0\<rparr>"

definition ex_tasks :: "task_struct list" where
  "ex_tasks = [\<lparr>pid = 1, utime = 900000000, nvcsw = 100, nivcsw = 20\<rparr>,
               \<lparr>pid = 4242, utime = 12000000, nvcsw = 3, nivcsw = 4\<rparr>]"

lemma c_string_abc_text: "c_string ''abc'' = ''abc''" by (simp add: c_string_def NUL_def)
lemma kstrtoint_abc: "kstrtoint ''abc'' = None" by (simp add: kstrtoint_def is_digit_def)
lemma kstrtoint_4242_text: "kstrtoint (''4242'' @ [LF]) = Some 4242" 
  by (simp add: kstrtoint_def is_digit_def digit_val_def LF_def)

lemma uint_lt_of_unat:
  assumes "unat (w :: 64 word) < 2 ^ 63"
  shows "uint w < 2 ^ 63"
proof -
  have "int (unat w) < int (2 ^ 63)" using assms by (rule iffD2[OF of_nat_less_iff])
  then show ?thesis by simp
qed

lemma sint_u64_small:
  assumes "unat (w :: 64 word) < 2 ^ 63"
  shows "sint w = int (unat w)"
proof -
  have "signed_take_bit 63 (uint w) = uint w"
  proof (rule signed_take_bit_int_eq_self)
    have "0 \<le> uint w" "(0::int) \<le> 2 ^ 63" by simp_all
    then show "- (2 ^ 63) \<le> uint w" by linarith
    show "uint w < 2 ^ 63" by (rule uint_lt_of_unat[OF assms])
  qed
  then show ?thesis by (simp add: sint_uint)
qed

lemma unat_div_million: "unat ((w :: 64 word) div 1000 div 1000) = unat w div 1000000"
  by (simp add: unat_div div_mult2_eq)

lemma utime_ms: "sint ((w :: 64 word) div 1000 div 1000) = int (unat w div 1000000)"
proof -
  have "unat w < 2 ^ 64" using unsigned_less[of w, where 'a = nat] by simp
  then have "unat w div 1000000 \<le> unat w" "unat w < 18446744073709551616" by simp_all
  then have "unat w div 1000000 < 2 ^ 63" by simp
  then have "unat (w div 1000 div 1000) < 2 ^ 63" by (simp only: unat_div_million)
  then have "sint (w div 1000 div 1000) = int (unat (w div 1000 div 1000))"
    by (rule sint_u64_small)
  then show ?thesis by (simp only: unat_div_million)
qed

lemma switches_sum:
  assumes "unat (a :: 64 word) + unat (b :: 64 word) < 2 ^ 63"
  shows "sint (a + b) = int (unat a + unat b)"
proof -
  have "unat a + unat b < 2 ^ LENGTH(64)" using assms by simp
  then have e: "unat (a + b) = unat a + unat b" by (simp only: unat_add_lem[THEN iffD1])
  then have "unat (a + b) < 2 ^ 63" using assms by simp
  then have "sint (a + b) = int (unat (a + b))" by (rule sint_u64_small)
  then show ?thesis by (simp only: e)
qed











text \<open>
  Claim C6 (amended). For every write whose received buffer content (\<open>received\<close>) fails to
  parse, the handler does not fault and returns 0; the size field holds the number of
  bytes accepted, \<open>min len PROCFS_MAX_SIZE\<close>, the offset advances by it, and the array holds
  the accepted bytes followed by NUL.
\<close>

theorem write_parse_failure:
  assumes "length (procfs_buffer st) = PROCFS_MAX_SIZE"
    and "min len PROCFS_MAX_SIZE \<le> length buff"
    and "kstrtoint (c_string (received st buff len)) = None"
  shows "procfile_write tasks st buff len off =
           Some (\<lparr>procfs_buffer = received st buff len,
                  procfs_buffer_size = int (min len PROCFS_MAX_SIZE)\<rparr>,
                 0, off + int (min len PROCFS_MAX_SIZE))
       \<and> length (received st buff len) = PROCFS_MAX_SIZE
       \<and> take (terminator_index (write_size len)) (received st buff len)
           = take (terminator_index (write_size len)) buff
       \<and> received st buff len ! terminator_index (write_size len) = NUL"
proof -
  have lr: "length (received st buff len) = PROCFS_MAX_SIZE" by (rule length_received[OF assms(1)])
  have nul: "received st buff len ! terminator_index (write_size len) = NUL"
    using terminator_index_bound[of len] assms(1)
    by (simp add: received_def nat_write_size length_copy_from_user)
  have tk: "take (terminator_index (write_size len)) (received st buff len)
           = take (terminator_index (write_size len)) buff"
  proof (cases "len < PROCFS_MAX_SIZE")
    case True
    then have "len \<le> length buff" using assms(2) by simp
    from received_small[OF assms(1) True this] True this show ?thesis
      by (simp add: terminator_index_small)
  next
    case False
    then show ?thesis by (simp add: terminator_index_full)
  qed
  show ?thesis
    using procfile_write_readable[OF assms(1,2), of tasks off] assms(3) lr nul tk
    by (simp add: write_size_min)
qed

lemma received_abc: "received st0 ''abc'' 3 = ''abc'' @ replicate 1021 NUL"
proof -
  have "received st0 ''abc'' 3 = take 3 ''abc'' @ NUL # drop (Suc 3) (procfs_buffer st0)"
    by (rule received_small) (simp_all add: st0_def PROCFS_MAX_SIZE_def)
  also have "\<dots> = ''abc'' @ replicate 1021 NUL"
    by (simp add: st0_def flip: replicate_Suc)
  finally show ?thesis .
qed

lemma c_string_abc: "c_string (''abc'' @ replicate 1021 NUL) = ''abc''"
proof -
  have "''abc'' @ replicate 1021 NUL = ''abc'' @ NUL # replicate 1020 NUL"
    by (simp flip: replicate_Suc)
  then show ?thesis by (simp only: c_string_append_NUL c_string_abc_text)
qed

theorem write_parse_failure_witness:
  "length (procfs_buffer st0) = PROCFS_MAX_SIZE \<and> min 3 PROCFS_MAX_SIZE \<le> length ''abc''
   \<and> kstrtoint (c_string (received st0 ''abc'' 3)) = None
   \<and> procfile_write ex_tasks st0 ''abc'' 3 0 =
       Some (\<lparr>procfs_buffer = ''abc'' @ replicate 1021 NUL, procfs_buffer_size = 3\<rparr>, 0, 3)"
proof -
  have h: "length (procfs_buffer st0) = PROCFS_MAX_SIZE" "min 3 PROCFS_MAX_SIZE \<le> length ''abc''"
    by (simp_all add: st0_def PROCFS_MAX_SIZE_def)
  have p: "kstrtoint (c_string (received st0 ''abc'' 3)) = None"
    by (simp only: received_abc c_string_abc kstrtoint_abc)
  have m: "int (min 3 PROCFS_MAX_SIZE) = 3" by (simp add: PROCFS_MAX_SIZE_def)
  from write_parse_failure[OF h p, of ex_tasks 0] h p show ?thesis
    by (simp only: received_abc m) simp
qed

text \<open>
  The claim as stated fails: writing the three bytes \<open>abc\<close> puts 3 in the size field and
  returns 0, not the 3 bytes accepted.
\<close>

theorem write_parse_failure_counterexample:
  "kstrtoint (c_string (received st0 ''abc'' 3)) = None
   \<and> map_option (\<lambda>(st', ret, off'). (procfs_buffer_size st', ret)) (procfile_write ex_tasks st0 ''abc'' 3 0)
       = Some (3, 0)"
proof -
  have h: "length (procfs_buffer st0) = PROCFS_MAX_SIZE" "min 3 PROCFS_MAX_SIZE \<le> length ''abc''"
    by (simp_all add: st0_def PROCFS_MAX_SIZE_def)
  have p: "kstrtoint (c_string (received st0 ''abc'' 3)) = None"
    by (simp only: received_abc c_string_abc kstrtoint_abc)
  from procfile_write_readable[OF h, of ex_tasks 0] p show ?thesis
    by (simp add: write_size_def PROCFS_MAX_SIZE_def)
qed

lemma parsed_nonempty:
  assumes "kstrtoint (c_string (take len buff)) = Some ident"
  shows "0 < len"
proof (rule ccontr)
  assume "\<not> 0 < len"
  then have "c_string (take len buff) = []" by (simp add: c_string_def)
  with assms show False by (simp add: kstrtoint_Nil)
qed

text \<open>
  Claim C4. For every write of fewer than \<open>PROCFS_MAX_SIZE\<close> bytes that parse as a decimal
  identifier matching no task, the array afterwards starts with exactly the bytes the
  caller wrote, followed by NUL, the size field is their number (the lookup does not touch
  it), and a read from offset 0 returns those bytes and their count.
\<close>

theorem write_no_match:
  assumes "length (procfs_buffer st) = PROCFS_MAX_SIZE"
    and "len < PROCFS_MAX_SIZE" and "len \<le> length buff"
    and "kstrtoint (c_string (take len buff)) = Some ident"
    and "find (\<lambda>p. pid p = ident) tasks = None"
    and "len \<le> writable"
  shows "\<exists>st'. procfile_write tasks st buff len off = Some (st', int len, off + int len)
           \<and> take len (procfs_buffer st') = take len buff
           \<and> procfs_buffer st' ! len = NUL
           \<and> procfs_buffer_size st' = int len
           \<and> procfile_read st' writable buffer_length 0 = Some (int len, take len buff, int len)"
proof -
  let ?r = "received st buff len"
  have r: "?r = take len buff @ NUL # drop (Suc len) (procfs_buffer st)"
    by (rule received_small[OF assms(1-3)])
  have lr: "length ?r = PROCFS_MAX_SIZE" by (rule length_received[OF assms(1)])
  have k: "kstrtoint (c_string ?r) = Some ident"
    using assms(4) by (simp add: r c_string_append_NUL)
  have m: "min len PROCFS_MAX_SIZE \<le> length buff" using assms(2,3) by simp
  have w: "procfile_write tasks st buff len off =
           Some (\<lparr>procfs_buffer = ?r, procfs_buffer_size = int len\<rparr>, int len, off + int len)"
    using procfile_write_readable[OF assms(1) m, of tasks off] k assms(2,5)
    by (simp add: write_size_min)
  have tk: "take len ?r = take len buff" using assms(3) by (simp add: r)
  have nul: "?r ! len = NUL" using assms(3) by (simp add: r nth_append)
  have pos: "0 < len" by (rule parsed_nonempty[OF assms(4)])
  have rd: "procfile_read \<lparr>procfs_buffer = ?r, procfs_buffer_size = int len\<rparr> writable buffer_length 0
            = Some (int len, take len buff, int len)"
    using pos assms(2,6) lr tk by (simp add: procfile_read_def Let_def)
  show ?thesis using w tk nul rd by simp
qed

lemma c_string_take_4242: "c_string (take 5 (''4242'' @ [LF])) = ''4242'' @ [LF]"
  by (simp add: c_string_def NUL_def LF_def)

lemma find_9999: "find (\<lambda>p. pid p = 9999) ex_tasks = None"
  by (simp add: ex_tasks_def)

lemma kstrtoint_9999: "kstrtoint (c_string (take 5 (''9999'' @ [LF]))) = Some 9999"
  by (simp add: c_string_def NUL_def LF_def kstrtoint_def is_digit_def digit_val_def)

theorem write_no_match_witness:
  "length (procfs_buffer st0) = PROCFS_MAX_SIZE \<and> 5 < PROCFS_MAX_SIZE
   \<and> kstrtoint (c_string (take 5 (''9999'' @ [LF]))) = Some 9999
   \<and> find (\<lambda>p. pid p = 9999) ex_tasks = None
   \<and> (\<exists>st'. procfile_write ex_tasks st0 (''9999'' @ [LF]) 5 0 = Some (st', 5, 5)
         \<and> take 5 (procfs_buffer st') = ''9999'' @ [LF]
         \<and> procfs_buffer_size st' = 5
         \<and> procfile_read st' 1000 1000 0 = Some (5, ''9999'' @ [LF], 5))"
proof -
  have h: "length (procfs_buffer st0) = PROCFS_MAX_SIZE" "5 < PROCFS_MAX_SIZE"
    "5 \<le> length (''9999'' @ [LF])" "(5::nat) \<le> 1000"
    by (simp_all add: st0_def PROCFS_MAX_SIZE_def)
  from write_no_match[OF h(1,2,3) kstrtoint_9999 find_9999 h(4), of 0 1000]
  show ?thesis using h kstrtoint_9999 find_9999 by auto
qed

text \<open>
  On the descriptor that made the write the offset stands at the number of bytes written,
  where a read finds the end of the data and delivers nothing.
\<close>

lemma read_at_end_of_data:
  "procfs_buffer_size st' = int len \<Longrightarrow>
   procfile_read st' writable buffer_length (0 + int len) = Some (0, [], 0 + int len)"
  by (simp add: procfile_read_def)

lemma find_pid: "find (\<lambda>p. pid p = ident) tasks = Some p \<Longrightarrow> pid p = ident \<and> p \<in> set tasks"
  by (auto simp: find_Some_iff)

text \<open>The record as the claim words it: without a line feed at its end.\<close>

definition claimed_record :: "task_struct \<Rightarrow> string" where
  "claimed_record p =
     ''ThreadID:'' @ sprintf_d (sint (pid p))
     @ '' Time:'' @ sprintf_d (int (unat (utime p) div 1000000))
     @ ''(ms) context switch times:'' @ sprintf_d (int (unat (nvcsw p) + unat (nivcsw p)))"

text \<open>
  Claim C5 (amended). For every write of fewer than \<open>PROCFS_MAX_SIZE\<close> bytes that parse as a
  decimal identifier matching a task \<open>p\<close> (the first such task of the table), the handler
  overwrites the start of the array with
  \<open>ThreadID:<pid> Time:<utime div 1000000>(ms) context switch times:<nvcsw + nivcsw>\<close>
  followed by a line feed and a NUL, and sets the size field (and its return value) to the
  length of that text, the line feed included. The switch count is the sum computed in
  \<open>unsigned long\<close> and printed with \<open>%ld\<close>: the sum of the two counts whenever that is below
  \<open>2^63\<close>.
\<close>

theorem write_match:
  assumes "length (procfs_buffer st) = PROCFS_MAX_SIZE"
    and "len < PROCFS_MAX_SIZE" and "len \<le> length buff"
    and "kstrtoint (c_string (take len buff)) = Some ident"
    and "find (\<lambda>p. pid p = ident) tasks = Some p"
  shows "\<exists>st'. procfile_write tasks st buff len off =
                  Some (st', int (length (record_text p)), off + int len)
           \<and> pid p = ident
           \<and> take (length (record_text p)) (procfs_buffer st') = record_text p
           \<and> procfs_buffer st' ! length (record_text p) = NUL
           \<and> procfs_buffer_size st' = int (length (record_text p))
           \<and> length (procfs_buffer st') = PROCFS_MAX_SIZE
           \<and> record_text p =
                ''ThreadID:'' @ sprintf_d (sint ident)
                @ '' Time:'' @ sprintf_d (int (unat (utime p) div 1000000))
                @ ''(ms) context switch times:'' @ sprintf_d (sint (nvcsw p + nivcsw p))
                @ [LF]
           \<and> (unat (nvcsw p) + unat (nivcsw p) < 2 ^ 63 \<longrightarrow>
                record_text p = claimed_record p @ [LF])"
proof -
  let ?r = "received st buff len"
  let ?t = "record_text p"
  have r: "?r = take len buff @ NUL # drop (Suc len) (procfs_buffer st)"
    by (rule received_small[OF assms(1-3)])
  have lr: "length ?r = PROCFS_MAX_SIZE" by (rule length_received[OF assms(1)])
  have k: "kstrtoint (c_string ?r) = Some ident"
    using assms(4) by (simp add: r c_string_append_NUL)
  have m: "min len PROCFS_MAX_SIZE \<le> length buff" using assms(2,3) by simp
  have w: "procfile_write tasks st buff len off =
           Some (\<lparr>procfs_buffer = sprintf_buf ?r ?t, procfs_buffer_size = int (length ?t)\<rparr>,
                 int (length ?t), off + int len)"
    using procfile_write_readable[OF assms(1) m, of tasks off] k assms(2,5)
    by (simp add: write_size_min)
  have pid: "pid p = ident" using find_pid[OF assms(5)] by simp
  have fit: "Suc (length ?t) \<le> length ?r"
    using length_record_text[of p] lr by (simp add: PROCFS_MAX_SIZE_def)
  have lb: "length (sprintf_buf ?r ?t) = PROCFS_MAX_SIZE"
    using fit lr by (simp add: length_sprintf_buf)
  have tk: "take (length ?t) (sprintf_buf ?r ?t) = ?t" by (simp add: sprintf_buf_def)
  have nul: "sprintf_buf ?r ?t ! length ?t = NUL" by (simp add: sprintf_buf_def nth_append)
  have rt: "?t = ''ThreadID:'' @ sprintf_d (sint ident)
                @ '' Time:'' @ sprintf_d (int (unat (utime p) div 1000000))
                @ ''(ms) context switch times:'' @ sprintf_d (sint (nvcsw p + nivcsw p))
                @ [LF]"
    by (simp only: record_text_def pid utime_ms)
  have cl: "?t = claimed_record p @ [LF]" if "unat (nvcsw p) + unat (nivcsw p) < 2 ^ 63"
    by (simp only: rt claimed_record_def pid switches_sum[OF that] append_assoc)
  show ?thesis using w pid tk nul lb rt cl by simp
qed

definition ex_p :: task_struct where
  "ex_p = \<lparr>pid = 4242, utime = 12000000, nvcsw = 3, nivcsw = 4\<rparr>"

definition ex_request :: string where
  "ex_request = ''4242'' @ [LF]"

definition ex_record :: string where
  "ex_record = ''ThreadID:4242 Time:12(ms) context switch times:7''"

lemma find_4242: "find (\<lambda>p. pid p = 4242) ex_tasks = Some ex_p"
  by (simp add: ex_tasks_def ex_p_def)

lemma kstrtoint_4242: "kstrtoint (c_string (take 5 ex_request)) = Some 4242"
  unfolding ex_request_def by (simp only: c_string_take_4242 kstrtoint_4242_text)

lemma sprintf_d_small: "sprintf_d 4242 = ''4242''" "sprintf_d 12 = ''12''" "sprintf_d 7 = ''7''"
  by (simp_all add: sprintf_d_def digits_small digits_large digit_char_def nth_digits_simps)

lemma record_text_ex: "record_text ex_p = ex_record @ [LF]"
  by (simp add: record_text_def sprintf_d_small ex_p_def ex_record_def)

lemma claimed_record_ex: "claimed_record ex_p = ex_record"
  by (simp add: claimed_record_def sprintf_d_small ex_p_def ex_record_def)

lemma length_ex_record: "length ex_record = 48"
  by (simp add: ex_record_def)

lemma length_record_text_ex: "length (record_text ex_p) = 49"
  by (simp add: record_text_ex length_ex_record)

lemma ex_write_hyps:
  "length (procfs_buffer st0) = PROCFS_MAX_SIZE" "5 < PROCFS_MAX_SIZE" "5 \<le> length ex_request"
  "min 5 PROCFS_MAX_SIZE \<le> length ex_request"
  by (simp_all add: st0_def PROCFS_MAX_SIZE_def ex_request_def)

theorem write_match_witness:
  "length (procfs_buffer st0) = PROCFS_MAX_SIZE \<and> 5 < PROCFS_MAX_SIZE \<and> 5 \<le> length ex_request
   \<and> kstrtoint (c_string (take 5 ex_request)) = Some 4242
   \<and> find (\<lambda>p. pid p = 4242) ex_tasks = Some ex_p
   \<and> (\<exists>st'. procfile_write ex_tasks st0 ex_request 5 0 = Some (st', 49, 5)
         \<and> take 49 (procfs_buffer st') = ex_record @ [LF]
         \<and> procfs_buffer_size st' = 49)"
proof -
  from write_match[OF ex_write_hyps(1,2,3) kstrtoint_4242 find_4242, of 0]
  obtain st' where
    "procfile_write ex_tasks st0 ex_request 5 0 = Some (st', int (length (record_text ex_p)), 0 + int 5)"
    "take (length (record_text ex_p)) (procfs_buffer st') = record_text ex_p"
    "procfs_buffer_size st' = int (length (record_text ex_p))"
    by blast
  then have "procfile_write ex_tasks st0 ex_request 5 0 = Some (st', 49, 5)
         \<and> take 49 (procfs_buffer st') = ex_record @ [LF]
         \<and> procfs_buffer_size st' = 49"
    unfolding length_record_text_ex by (simp add: record_text_ex)
  then show ?thesis using ex_write_hyps(1,2,3) kstrtoint_4242 find_4242 by blast
qed

text \<open>
  The claim as stated fails by the line feed: for pid 4242 the record of the claim has 48
  characters, the array holds 49 and the size field is 49.
\<close>

theorem write_match_counterexample:
  "kstrtoint (c_string (take 5 ex_request)) = Some 4242
   \<and> find (\<lambda>p. pid p = 4242) ex_tasks = Some ex_p
   \<and> claimed_record ex_p = ex_record
   \<and> length (claimed_record ex_p) = 48
   \<and> map_option (\<lambda>(st', ret, off'). (c_string (procfs_buffer st'), procfs_buffer_size st'))
        (procfile_write ex_tasks st0 ex_request 5 0)
        = Some (ex_record @ [LF], 49)"
proof -
  have r: "received st0 ex_request 5 =
           take 5 ex_request @ NUL # drop (Suc 5) (procfs_buffer st0)"
    by (rule received_small[OF ex_write_hyps(1,2,3)])
  have k: "kstrtoint (c_string (received st0 ex_request 5)) = Some 4242"
    by (simp only: r c_string_append_NUL kstrtoint_4242)
  have w: "procfile_write ex_tasks st0 ex_request 5 0 =
        Some (\<lparr>procfs_buffer = sprintf_buf (received st0 ex_request 5) (record_text ex_p),
               procfs_buffer_size = int (length (record_text ex_p))\<rparr>,
              int (length (record_text ex_p)), 0 + write_size 5)"
    using procfile_write_readable[OF ex_write_hyps(1,4), of ex_tasks 0]
    by (simp only: k find_4242 option.case)
  have c: "c_string (sprintf_buf (received st0 ex_request 5) (record_text ex_p)) = record_text ex_p"
    by (rule c_string_sprintf_buf[OF NUL_notin_record_text])
  have "map_option (\<lambda>(st', ret, off'). (c_string (procfs_buffer st'), procfs_buffer_size st'))
        (procfile_write ex_tasks st0 ex_request 5 0) = Some (record_text ex_p, 49)"
    by (simp add: w c length_record_text_ex)
  then show ?thesis
    using kstrtoint_4242 find_4242 claimed_record_ex length_ex_record
    by (simp only: record_text_ex simp_thms)
qed

section \<open>The locked write-then-read of thread()\<close>

text \<open>
  \<^verbatim>\<open>
  int fd = open(proc_file, O_RDWR);
  pthread_mutex_lock(&mutex);
  char buffer[BUF_SIZE] = {0};
  sprintf(buffer, "%d\n", pid);
  write(fd, buffer, strlen(buffer));
  read(fd, buffer, BUF_SIZE);
  pthread_mutex_unlock(&mutex);
  \<close>
  Each worker has its own open file, hence its own offset \<open>f_pos\<close>, starting at 0. The
  workers run concurrently: a run of the system is any sequence of events \<open>Lock w\<close>,
  \<open>Write w tasks\<close>, \<open>Read w\<close>, \<open>Unlock w\<close> in which every worker follows its program (\<open>wpc\<close>)
  and \<open>Lock\<close> is taken only while the mutex is free; \<open>exec\<close> is \<open>None\<close> on an event that
  cannot happen in the current state, and \<open>run\<close> is \<open>None\<close> on a sequence that is not an
  interleaving of the workers. \<open>Write w tasks\<close> carries the process table as it is at that
  moment. The module's slot is shared by all workers.
\<close>

definition request :: "cint \<Rightarrow> string" where
  "request p = sprintf_d (sint p) @ [LF]"

lemma LF_not_digit: "\<not> is_digit LF"
  by (simp add: is_digit_def LF_def)

lemma kstrtoint_request: "kstrtoint (request p) = Some p"
proof (cases "sint p < 0")
  case True
  let ?n = "nat (- sint p)"
  have s: "request p = CHR ''-'' # digits ?n @ [LF]"
    using True by (simp add: request_def sprintf_d_def)
  have pd: "parse_digits 0 (digits ?n @ [LF]) = (?n, [LF])"
    by (rule parse_digits_digits_stop) (simp add: LF_not_digit)
  have ne: "digits ?n \<noteq> []" by (rule digits_nonempty)
  have rng: "\<not> (- int ?n < - (2 ^ 31) \<or> 2 ^ 31 - 1 < - int ?n)"
    using True sint_range32[of p] by simp
  have "word_of_int (- int ?n) = p" using True by simp
  then show ?thesis
    using ne rng by (simp add: kstrtoint_def s pd Let_def)
next
  case False
  let ?n = "nat (sint p)"
  have s: "request p = digits ?n @ [LF]"
    using False by (simp add: request_def sprintf_d_def)
  obtain d where d: "d < 10" "hd (digits ?n) = digit_char d"
    using hd_digits by blast
  have ne: "digits ?n \<noteq> []" by (rule digits_nonempty)
  then have hd: "hd (digits ?n @ [LF]) = digit_char d" using d(2) by simp
  have nosign: "digit_char d \<noteq> CHR ''-''" "digit_char d \<noteq> CHR ''+''"
    using digit_char_neq[OF d(1)] by auto
  have pd: "parse_digits 0 (digits ?n @ [LF]) = (?n, [LF])"
    by (rule parse_digits_digits_stop) (simp add: LF_not_digit)
  have rng: "\<not> (int ?n < - (2 ^ 31) \<or> 2 ^ 31 - 1 < int ?n)"
    using False sint_range32[of p] by simp
  have "word_of_int (int ?n) = p" using False by simp
  then show ?thesis
    using ne rng nosign by (simp add: kstrtoint_def s pd Let_def hd del: hd_append2)
qed

lemma length_request: "length (request p) \<le> 12"
  using length_sprintf_d[of p] by (simp add: request_def)

lemma NUL_notin_request: "NUL \<notin> set (request p)"
  using NUL_notin_sprintf_d by (simp add: request_def NUL_def LF_def)

lemma procfile_write_found:
  assumes "length (procfs_buffer st) = PROCFS_MAX_SIZE"
    and "len < PROCFS_MAX_SIZE" and "len \<le> length buff"
    and "kstrtoint (c_string (take len buff)) = Some ident"
    and "find (\<lambda>p. pid p = ident) tasks = Some p"
  shows "procfile_write tasks st buff len off =
           Some (\<lparr>procfs_buffer = sprintf_buf (received st buff len) (record_text p),
                  procfs_buffer_size = int (length (record_text p))\<rparr>,
                 int (length (record_text p)), off + int len)"
    and "length (sprintf_buf (received st buff len) (record_text p)) = PROCFS_MAX_SIZE"
proof -
  let ?r = "received st buff len"
  have r: "?r = take len buff @ NUL # drop (Suc len) (procfs_buffer st)"
    by (rule received_small[OF assms(1-3)])
  have lr: "length ?r = PROCFS_MAX_SIZE" by (rule length_received[OF assms(1)])
  have k: "kstrtoint (c_string ?r) = Some ident"
    using assms(4) by (simp add: r c_string_append_NUL)
  have m: "min len PROCFS_MAX_SIZE \<le> length buff" using assms(2,3) by simp
  show "procfile_write tasks st buff len off =
           Some (\<lparr>procfs_buffer = sprintf_buf ?r (record_text p),
                  procfs_buffer_size = int (length (record_text p))\<rparr>,
                 int (length (record_text p)), off + int len)"
    using procfile_write_readable[OF assms(1) m, of tasks off] k assms(2,5)
    by (simp add: write_size_min)
  have "Suc (length (record_text p)) \<le> length ?r"
    using length_record_text[of p] lr by (simp add: PROCFS_MAX_SIZE_def)
  then show "length (sprintf_buf ?r (record_text p)) = PROCFS_MAX_SIZE"
    using lr by (simp add: length_sprintf_buf)
qed

datatype pc = Opened | Locked | Written | HasRead | Released

record worker =
  wpc :: pc
  child_pid :: cint
  f_pos :: int
  buffer :: "char list"
  nread :: int

record system =
  workers :: "worker list"
  mutex :: "nat option"
  slot :: procfs

datatype event = Lock nat | Write nat "task_struct list" | Read nat | Unlock nat

definition do_lock :: "nat \<Rightarrow> system \<Rightarrow> system option" where
  "do_lock w s =
     (if mutex s = None
      then Some (s\<lparr>mutex := Some w, workers := (workers s)[w := (workers s ! w)\<lparr>wpc := Locked\<rparr>]\<rparr>)
      else None)"

definition do_write :: "nat \<Rightarrow> task_struct list \<Rightarrow> system \<Rightarrow> system option" where
  "do_write w tasks s =
     (let me = workers s ! w;
          b = sprintf_buf (replicate BUF_SIZE NUL) (request (child_pid me))
      in case procfile_write tasks (slot s) b (length (c_string b)) (f_pos me) of
           None \<Rightarrow> None
         | Some (st', ret, off') \<Rightarrow>
             Some (s\<lparr>slot := st',
                     workers := (workers s)[w := me\<lparr>wpc := Written, f_pos := off', buffer := b\<rparr>]\<rparr>))"

definition do_read :: "nat \<Rightarrow> system \<Rightarrow> system option" where
  "do_read w s =
     (let me = workers s ! w
      in case procfile_read (slot s) BUF_SIZE BUF_SIZE (f_pos me) of
           None \<Rightarrow> None
         | Some (ret, bytes, off') \<Rightarrow>
             Some (s\<lparr>workers := (workers s)[w := me\<lparr>wpc := HasRead, f_pos := off',
                     buffer := bytes @ drop (length bytes) (buffer me), nread := ret\<rparr>]\<rparr>))"

definition do_unlock :: "nat \<Rightarrow> system \<Rightarrow> system option" where
  "do_unlock w s =
     (if mutex s = Some w
      then Some (s\<lparr>mutex := None, workers := (workers s)[w := (workers s ! w)\<lparr>wpc := Released\<rparr>]\<rparr>)
      else None)"

fun exec :: "event \<Rightarrow> system \<Rightarrow> system option" where
  "exec (Lock w) s =
     (if w < length (workers s) \<and> wpc (workers s ! w) = Opened then do_lock w s else None)"
| "exec (Write w tasks) s =
     (if w < length (workers s) \<and> wpc (workers s ! w) = Locked then do_write w tasks s else None)"
| "exec (Read w) s =
     (if w < length (workers s) \<and> wpc (workers s ! w) = Written then do_read w s else None)"
| "exec (Unlock w) s =
     (if w < length (workers s) \<and> wpc (workers s ! w) = HasRead then do_unlock w s else None)"

fun run :: "event list \<Rightarrow> system \<Rightarrow> system option" where
  "run [] s = Some s"
| "run (e # es) s = (case exec e s of None \<Rightarrow> None | Some s' \<Rightarrow> run es s')"

definition init_system :: "cint list \<Rightarrow> procfs \<Rightarrow> system" where
  "init_system pids st =
     \<lparr>workers = map (\<lambda>p. \<lparr>wpc = Opened, child_pid = p, f_pos = 0, buffer = [], nread = 0\<rparr>) pids,
      mutex = None, slot = st\<rparr>"

text \<open>
  The handler finds a match for the identifier written. \<open>answered\<close>: the worker's buffer
  holds, and its \<open>read\<close> returned the length of, the record of a task with the worker's own
  child pid. \<open>system_inv\<close> is the invariant of the protocol: the holder of the mutex is the
  only worker between \<open>Lock\<close> and \<open>Unlock\<close>, and between its \<open>write\<close> and its \<open>read\<close> the slot
  holds the answer to its own request.
\<close>

fun finds_match :: "cint list \<Rightarrow> event \<Rightarrow> bool" where
  "finds_match pids (Write w tasks) \<longleftrightarrow> find (\<lambda>p. pid p = pids ! w) tasks \<noteq> None"
| "finds_match pids e \<longleftrightarrow> True"

definition answered :: "worker \<Rightarrow> bool" where
  "answered me \<longleftrightarrow> (\<exists>p. pid p = child_pid me \<and> c_string (buffer me) = record_text p
                        \<and> nread me = int (length (record_text p)))"

definition holds_answer :: "procfs \<Rightarrow> worker \<Rightarrow> bool" where
  "holds_answer st me \<longleftrightarrow> (\<exists>p. pid p = child_pid me
       \<and> take (length (record_text p)) (procfs_buffer st) = record_text p
       \<and> procfs_buffer_size st = int (length (record_text p)))"

definition worker_inv :: "system \<Rightarrow> nat \<Rightarrow> bool" where
  "worker_inv s w =
     (let me = workers s ! w
      in case wpc me of
           Opened \<Rightarrow> mutex s \<noteq> Some w \<and> f_pos me = 0
         | Locked \<Rightarrow> mutex s = Some w \<and> f_pos me = 0
         | Written \<Rightarrow> mutex s = Some w \<and> f_pos me = int (length (request (child_pid me)))
                      \<and> buffer me = sprintf_buf (replicate BUF_SIZE NUL) (request (child_pid me))
                      \<and> holds_answer (slot s) me
         | HasRead \<Rightarrow> mutex s = Some w \<and> answered me
         | Released \<Rightarrow> mutex s \<noteq> Some w \<and> answered me)"

definition system_inv :: "cint list \<Rightarrow> system \<Rightarrow> bool" where
  "system_inv pids s \<longleftrightarrow> map child_pid (workers s) = pids
                    \<and> length (procfs_buffer (slot s)) = PROCFS_MAX_SIZE
                    \<and> (\<forall>w < length (workers s). worker_inv s w)"

lemma map_update_same:
  assumes "w < length xs" "f y = f (xs ! w)"
  shows "map f (xs[w := y]) = map f xs"
proof -
  have "(map f xs)[w := f y] = map f xs"
    using assms by (subst list_update_same_conv) simp_all
  then show ?thesis by (simp add: map_update)
qed

lemma system_inv_init:
  "length (procfs_buffer st) = PROCFS_MAX_SIZE \<Longrightarrow> system_inv pids (init_system pids st)"
  by (simp add: system_inv_def init_system_def worker_inv_def comp_def map_idI)

lemma others_idle:
  assumes "system_inv pids s" "v < length (workers s)" "mutex s \<noteq> Some v"
  shows "wpc (workers s ! v) = Opened \<or> wpc (workers s ! v) = Released"
proof -
  have "worker_inv s v" using assms(1,2) by (simp add: system_inv_def)
  then show ?thesis using assms(3)
    by (cases "wpc (workers s ! v)") (simp_all add: worker_inv_def Let_def)
qed

lemma idle_frame:
  assumes "worker_inv s v" "wpc (workers s ! v) = Opened \<or> wpc (workers s ! v) = Released"
    "workers s' ! v = workers s ! v" "mutex s' \<noteq> Some v"
  shows "worker_inv s' v"
  using assms by (auto simp: worker_inv_def Let_def)

lemma do_lock_inv:
  assumes "system_inv pids s" "w < length (workers s)" "wpc (workers s ! w) = Opened"
    "do_lock w s = Some s'"
  shows "system_inv pids s'"
proof -
  have m: "mutex s = None" using assms(4) by (simp add: do_lock_def split: if_splits)
  have s': "s' = s\<lparr>mutex := Some w, workers := (workers s)[w := (workers s ! w)\<lparr>wpc := Locked\<rparr>]\<rparr>"
    using assms(4) m by (simp add: do_lock_def)
  have pids: "map child_pid (workers s') = pids"
    using assms(1,2) by (simp add: s' system_inv_def map_update_same)
  have "worker_inv s' v" if v: "v < length (workers s)" for v
  proof (cases "v = w")
    case True
    have "worker_inv s w" using assms(1,2) by (simp add: system_inv_def)
    then show ?thesis using assms(2,3) True by (simp add: s' worker_inv_def Let_def)
  next
    case False
    have "worker_inv s v" using assms(1) v by (simp add: system_inv_def)
    moreover have "wpc (workers s ! v) = Opened \<or> wpc (workers s ! v) = Released"
      using others_idle[OF assms(1) v] m by simp
    ultimately show ?thesis using False by (intro idle_frame[of s v s']) (simp_all add: s')
  qed
  then show ?thesis using assms(1) pids by (simp add: system_inv_def s')
qed

lemma do_unlock_inv:
  assumes "system_inv pids s" "w < length (workers s)" "wpc (workers s ! w) = HasRead"
    "do_unlock w s = Some s'"
  shows "system_inv pids s'"
proof -
  have m: "mutex s = Some w" using assms(4) by (simp add: do_unlock_def split: if_splits)
  have s': "s' = s\<lparr>mutex := None, workers := (workers s)[w := (workers s ! w)\<lparr>wpc := Released\<rparr>]\<rparr>"
    using assms(4) m by (simp add: do_unlock_def)
  have pids: "map child_pid (workers s') = pids"
    using assms(1,2) by (simp add: s' system_inv_def map_update_same)
  have "worker_inv s' v" if v: "v < length (workers s)" for v
  proof (cases "v = w")
    case True
    have "worker_inv s w" using assms(1,2) by (simp add: system_inv_def)
    then show ?thesis using assms(2,3) True by (simp add: s' worker_inv_def Let_def answered_def)
  next
    case False
    have "worker_inv s v" using assms(1) v by (simp add: system_inv_def)
    moreover have "wpc (workers s ! v) = Opened \<or> wpc (workers s ! v) = Released"
      using others_idle[OF assms(1) v] m False by simp
    ultimately show ?thesis using False by (intro idle_frame[of s v s']) (simp_all add: s')
  qed
  then show ?thesis using assms(1) pids by (simp add: system_inv_def s')
qed

lemma request_buffer:
  "sprintf_buf (replicate BUF_SIZE NUL) (request p) =
     request p @ replicate (BUF_SIZE - length (request p)) NUL"
proof -
  have "length (request p) < BUF_SIZE" using length_request[of p] by (simp add: BUF_SIZE_def)
  then have "NUL # replicate (BUF_SIZE - Suc (length (request p))) NUL =
             replicate (BUF_SIZE - length (request p)) NUL"
    by (simp add: Suc_diff_Suc flip: replicate_Suc)
  then show ?thesis by (simp add: sprintf_buf_def)
qed

lemma c_string_request_buffer:
  "c_string (sprintf_buf (replicate BUF_SIZE NUL) (request p)) = request p"
  by (rule c_string_sprintf_buf[OF NUL_notin_request])

lemma do_write_result:
  assumes "system_inv pids s" "w < length (workers s)" "wpc (workers s ! w) = Locked"
    "find (\<lambda>p. pid p = child_pid (workers s ! w)) tasks = Some p"
  shows "do_write w tasks s =
           Some (s\<lparr>slot := \<lparr>procfs_buffer =
                          sprintf_buf (received (slot s)
                              (sprintf_buf (replicate BUF_SIZE NUL) (request (child_pid (workers s ! w))))
                              (length (request (child_pid (workers s ! w)))))
                            (record_text p),
                        procfs_buffer_size = int (length (record_text p))\<rparr>,
                   workers := (workers s)[w := (workers s ! w)\<lparr>wpc := Written,
                       f_pos := int (length (request (child_pid (workers s ! w)))),
                       buffer := sprintf_buf (replicate BUF_SIZE NUL) (request (child_pid (workers s ! w)))\<rparr>]\<rparr>)"
    and "length (sprintf_buf (received (slot s)
                              (sprintf_buf (replicate BUF_SIZE NUL) (request (child_pid (workers s ! w))))
                              (length (request (child_pid (workers s ! w)))))
                            (record_text p)) = PROCFS_MAX_SIZE"
proof -
  let ?me = "workers s ! w"
  let ?b = "sprintf_buf (replicate BUF_SIZE NUL) (request (child_pid ?me))"
  let ?len = "length (request (child_pid ?me))"
  have inv_w: "worker_inv s w" using assms(1,2) by (simp add: system_inv_def)
  then have pos: "f_pos ?me = 0"
    using assms(3) by (simp_all add: worker_inv_def Let_def)
  have L: "length (procfs_buffer (slot s)) = PROCFS_MAX_SIZE"
    using assms(1) by (simp add: system_inv_def)
  have len: "?len < PROCFS_MAX_SIZE" "?len \<le> length ?b"
    using length_request[of "child_pid ?me"]
    by (simp_all add: PROCFS_MAX_SIZE_def request_buffer)
  have tk: "take ?len ?b = request (child_pid ?me)" by (simp add: request_buffer)
  have "c_string (request (child_pid ?me)) = request (child_pid ?me)"
    unfolding c_string_def using NUL_notin_request[of "child_pid ?me"]
    by (intro takeWhile_eq_all_conv[THEN iffD2]) auto
  then have k: "kstrtoint (c_string (take ?len ?b)) = Some (child_pid ?me)"
    by (simp only: tk kstrtoint_request)
  note w = procfile_write_found(1)[OF L len k assms(4), of "f_pos ?me"]
  show "do_write w tasks s =
           Some (s\<lparr>slot := \<lparr>procfs_buffer = sprintf_buf (received (slot s) ?b ?len) (record_text p),
                        procfs_buffer_size = int (length (record_text p))\<rparr>,
                   workers := (workers s)[w := ?me\<lparr>wpc := Written, f_pos := int ?len, buffer := ?b\<rparr>]\<rparr>)"
    using w pos by (simp add: do_write_def Let_def c_string_request_buffer)
  show "length (sprintf_buf (received (slot s) ?b ?len) (record_text p)) = PROCFS_MAX_SIZE"
    by (rule procfile_write_found(2)[OF L len k assms(4)])
qed

lemma do_write_inv:
  assumes "system_inv pids s" "w < length (workers s)" "wpc (workers s ! w) = Locked"
    "do_write w tasks s = Some s'" "find (\<lambda>p. pid p = pids ! w) tasks \<noteq> None"
  shows "system_inv pids s'"
proof -
  let ?me = "workers s ! w"
  let ?b = "sprintf_buf (replicate BUF_SIZE NUL) (request (child_pid ?me))"
  let ?len = "length (request (child_pid ?me))"
  have inv_w: "worker_inv s w" using assms(1,2) by (simp add: system_inv_def)
  then have m: "mutex s = Some w"
    using assms(3) by (simp_all add: worker_inv_def Let_def)
  have cp: "child_pid ?me = pids ! w"
    using assms(1,2) by (auto simp: system_inv_def)
  obtain p where p: "find (\<lambda>p. pid p = child_pid ?me) tasks = Some p"
    using assms(5) cp by auto
  note w = do_write_result[OF assms(1,2,3) p]
  let ?st = "\<lparr>procfs_buffer = sprintf_buf (received (slot s) ?b ?len) (record_text p),
              procfs_buffer_size = int (length (record_text p))\<rparr>"
  have s': "s' = s\<lparr>slot := ?st,
               workers := (workers s)[w := ?me\<lparr>wpc := Written, f_pos := int ?len, buffer := ?b\<rparr>]\<rparr>"
    using assms(4) w(1) by simp
  have pids: "map child_pid (workers s') = pids"
    using assms(1,2) by (simp add: s' system_inv_def map_update_same)
  have ha: "holds_answer ?st (?me\<lparr>wpc := Written, f_pos := int ?len, buffer := ?b\<rparr>)"
    using find_pid[OF p] by (auto simp: holds_answer_def sprintf_buf_def)
  have "worker_inv s' v" if v: "v < length (workers s)" for v
  proof (cases "v = w")
    case True
    then show ?thesis using assms(2) m ha by (simp add: s' worker_inv_def Let_def)
  next
    case False
    have "worker_inv s v" using assms(1) v by (simp add: system_inv_def)
    moreover have "wpc (workers s ! v) = Opened \<or> wpc (workers s ! v) = Released"
      using others_idle[OF assms(1) v] m False by simp
    ultimately show ?thesis using False m by (intro idle_frame[of s v s']) (simp_all add: s')
  qed
  then show ?thesis using pids w(2) by (simp add: system_inv_def s')
qed

lemma c_string_padded:
  assumes "NUL \<notin> set xs" "0 < k"
  shows "c_string (xs @ replicate k NUL) = xs"
proof -
  obtain k' where "k = Suc k'" using assms(2) by (cases k) auto
  then have "xs @ replicate k NUL = xs @ NUL # replicate k' NUL" by simp
  then show ?thesis using assms(1) by (auto simp: c_string_def takeWhile_tail)
qed

lemma do_read_result:
  assumes "system_inv pids s" "w < length (workers s)" "wpc (workers s ! w) = Written"
  shows "\<exists>p. pid p = child_pid (workers s ! w)
           \<and> do_read w s =
               Some (s\<lparr>workers := (workers s)[w := (workers s ! w)\<lparr>wpc := HasRead,
                  f_pos := int (length (request (child_pid (workers s ! w)))) + int (length (record_text p)),
                  buffer := record_text p @ replicate (BUF_SIZE - length (record_text p)) NUL,
                  nread := int (length (record_text p))\<rparr>]\<rparr>)"
proof -
  let ?me = "workers s ! w"
  let ?req = "request (child_pid ?me)"
  have inv_w: "worker_inv s w" using assms(1,2) by (simp add: system_inv_def)
  then have pos: "f_pos ?me = int (length ?req)"
    and b: "buffer ?me = sprintf_buf (replicate BUF_SIZE NUL) ?req"
    and ha: "holds_answer (slot s) ?me"
    using assms(3) by (simp_all add: worker_inv_def Let_def)
  from ha obtain p where p: "pid p = child_pid ?me"
    "take (length (record_text p)) (procfs_buffer (slot s)) = record_text p"
    "procfs_buffer_size (slot s) = int (length (record_text p))"
    by (auto simp: holds_answer_def)
  let ?t = "record_text p"
  have L: "length (procfs_buffer (slot s)) = PROCFS_MAX_SIZE"
    using assms(1) by (simp add: system_inv_def)
  have bounds: "length ?req < length ?t" "length ?t \<le> BUF_SIZE" "length ?t \<le> PROCFS_MAX_SIZE"
    using length_request[of "child_pid ?me"] length_record_text[of p] length_record_text_ge[of p]
    by (simp_all add: BUF_SIZE_def PROCFS_MAX_SIZE_def)
  have rd: "procfile_read (slot s) BUF_SIZE BUF_SIZE (f_pos ?me) =
            Some (int (length ?t), ?t, int (length ?req) + int (length ?t))"
    using bounds L p(2,3) pos by (simp add: procfile_read_def Let_def)
  have "drop (length ?t) (buffer ?me) = replicate (BUF_SIZE - length ?t) NUL"
    using bounds(1) by (simp add: b request_buffer)
  then have "do_read w s =
               Some (s\<lparr>workers := (workers s)[w := ?me\<lparr>wpc := HasRead,
                  f_pos := int (length ?req) + int (length ?t),
                  buffer := ?t @ replicate (BUF_SIZE - length ?t) NUL,
                  nread := int (length ?t)\<rparr>]\<rparr>)"
    using rd by (simp add: do_read_def Let_def)
  then show ?thesis using p(1) by blast
qed

lemma do_read_inv:
  assumes "system_inv pids s" "w < length (workers s)" "wpc (workers s ! w) = Written"
    "do_read w s = Some s'"
  shows "system_inv pids s'"
proof -
  let ?me = "workers s ! w"
  let ?req = "request (child_pid ?me)"
  have inv_w: "worker_inv s w" using assms(1,2) by (simp add: system_inv_def)
  then have m: "mutex s = Some w"
    using assms(3) by (simp_all add: worker_inv_def Let_def)
  from do_read_result[OF assms(1-3)] assms(4) obtain p where p: "pid p = child_pid ?me"
    and s': "s' = s\<lparr>workers := (workers s)[w := ?me\<lparr>wpc := HasRead,
                  f_pos := int (length ?req) + int (length (record_text p)),
                  buffer := record_text p @ replicate (BUF_SIZE - length (record_text p)) NUL,
                  nread := int (length (record_text p))\<rparr>]\<rparr>"
    by auto
  let ?t = "record_text p"
  have L: "length (procfs_buffer (slot s)) = PROCFS_MAX_SIZE"
    using assms(1) by (simp add: system_inv_def)
  have "length ?t < BUF_SIZE" using length_record_text[of p] by (simp add: BUF_SIZE_def)
  then have "c_string (?t @ replicate (BUF_SIZE - length ?t) NUL) = ?t"
    by (simp add: c_string_padded[OF NUL_notin_record_text])
  then have ans: "answered (?me\<lparr>wpc := HasRead, f_pos := int (length ?req) + int (length ?t),
                    buffer := ?t @ replicate (BUF_SIZE - length ?t) NUL, nread := int (length ?t)\<rparr>)"
    using p by (auto simp: answered_def)
  have pids: "map child_pid (workers s') = pids"
    using assms(1,2) by (simp add: s' system_inv_def map_update_same)
  have "worker_inv s' v" if v: "v < length (workers s)" for v
  proof (cases "v = w")
    case True
    then show ?thesis using assms(2) m ans by (simp add: s' worker_inv_def Let_def)
  next
    case False
    have "worker_inv s v" using assms(1) v by (simp add: system_inv_def)
    moreover have "wpc (workers s ! v) = Opened \<or> wpc (workers s ! v) = Released"
      using others_idle[OF assms(1) v] m False by simp
    ultimately show ?thesis using False m by (intro idle_frame[of s v s']) (simp_all add: s')
  qed
  then show ?thesis using pids L by (simp add: system_inv_def s')
qed

lemma exec_inv:
  assumes "system_inv pids s" "exec e s = Some s'" "finds_match pids e"
  shows "system_inv pids s'"
proof (cases e)
  case (Lock w)
  then show ?thesis using assms do_lock_inv[of pids s w s'] by (simp split: if_splits)
next
  case (Write w tasks)
  then show ?thesis using assms do_write_inv[of pids s w tasks s'] by (simp split: if_splits)
next
  case (Read w)
  then show ?thesis using assms do_read_inv[of pids s w s'] by (simp split: if_splits)
next
  case (Unlock w)
  then show ?thesis using assms do_unlock_inv[of pids s w s'] by (simp split: if_splits)
qed

lemma run_inv:
  "system_inv pids s \<Longrightarrow> run evs s = Some s' \<Longrightarrow> list_all (finds_match pids) evs \<Longrightarrow>
   system_inv pids s'"
proof (induction evs arbitrary: s)
  case Nil
  then show ?case by simp
next
  case (Cons e evs)
  from Cons.prems(2) obtain s1 where s1: "exec e s = Some s1" "run evs s1 = Some s'"
    by (auto split: option.splits)
  have "system_inv pids s1" using exec_inv[OF Cons.prems(1) s1(1)] Cons.prems(3) by simp
  then show ?case using Cons.IH[OF _ s1(2)] Cons.prems(3) by simp
qed

lemma run_append:
  "run (xs @ ys) s = (case run xs s of None \<Rightarrow> None | Some s' \<Rightarrow> run ys s')"
  by (induction xs arbitrary: s) (simp_all split: option.splits)

lemma child_pid_inv: "system_inv pids s \<Longrightarrow> w < length (workers s) \<Longrightarrow> child_pid (workers s ! w) = pids ! w"
  by (auto simp: system_inv_def)

lemma transaction:
  assumes "system_inv pids s" "w < length (workers s)" "wpc (workers s ! w) = Opened"
    "mutex s = None" "find (\<lambda>p. pid p = pids ! w) tasks \<noteq> None"
  shows "\<exists>s'. run [Lock w, Write w tasks, Read w, Unlock w] s = Some s' \<and> system_inv pids s'
            \<and> mutex s' = None \<and> wpc (workers s' ! w) = Released
            \<and> length (workers s') = length (workers s)
            \<and> (\<forall>v. v \<noteq> w \<longrightarrow> workers s' ! v = workers s ! v)"
proof -
  define s1 where "s1 = s\<lparr>mutex := Some w, workers := (workers s)[w := (workers s ! w)\<lparr>wpc := Locked\<rparr>]\<rparr>"
  have e1: "exec (Lock w) s = Some s1"
    using assms(2,3,4) by (simp add: do_lock_def s1_def)
  have i1: "system_inv pids s1" by (rule exec_inv[OF assms(1) e1]) simp
  have f1: "w < length (workers s1)" "wpc (workers s1 ! w) = Locked" "mutex s1 = Some w"
    "length (workers s1) = length (workers s)" "\<forall>v. v \<noteq> w \<longrightarrow> workers s1 ! v = workers s ! v"
    using assms(2) by (simp_all add: s1_def)
  obtain p where p: "find (\<lambda>p. pid p = child_pid (workers s1 ! w)) tasks = Some p"
    using assms(5) child_pid_inv[OF i1 f1(1)] by auto
  from do_write_result(1)[OF i1 f1(1,2) p]
  obtain s2 where w2: "do_write w tasks s1 = Some s2"
    and f2: "wpc (workers s2 ! w) = Written" "mutex s2 = Some w"
    "length (workers s2) = length (workers s)" "\<forall>v. v \<noteq> w \<longrightarrow> workers s2 ! v = workers s ! v"
    using f1 by simp
  have e2: "exec (Write w tasks) s1 = Some s2" using f1(1,2) w2 by simp
  have i2: "system_inv pids s2" by (rule exec_inv[OF i1 e2]) (simp add: assms(5))
  have l2: "w < length (workers s2)" using f2(3) assms(2) by simp
  from do_read_result[OF i2 l2 f2(1)]
  obtain s3 where r3: "do_read w s2 = Some s3"
    and f3: "wpc (workers s3 ! w) = HasRead" "mutex s3 = Some w"
    "length (workers s3) = length (workers s)" "\<forall>v. v \<noteq> w \<longrightarrow> workers s3 ! v = workers s ! v"
    using f2 l2 by auto
  have e3: "exec (Read w) s2 = Some s3" using l2 f2(1) r3 by simp
  have i3: "system_inv pids s3" by (rule exec_inv[OF i2 e3]) simp
  have l3: "w < length (workers s3)" using f3(3) assms(2) by simp
  define s4 where "s4 = s3\<lparr>mutex := None, workers := (workers s3)[w := (workers s3 ! w)\<lparr>wpc := Released\<rparr>]\<rparr>"
  have e4: "exec (Unlock w) s3 = Some s4"
    using l3 f3(1,2) by (simp add: do_unlock_def s4_def)
  have i4: "system_inv pids s4" by (rule exec_inv[OF i3 e4]) simp
  have f4: "mutex s4 = None" "wpc (workers s4 ! w) = Released"
    "length (workers s4) = length (workers s)" "\<forall>v. v \<noteq> w \<longrightarrow> workers s4 ! v = workers s ! v"
    using l3 f3 by (simp_all add: s4_def)
  have "run [Lock w, Write w tasks, Read w, Unlock w] s = Some s4"
    using e1 e2 e3 e4 by simp
  then show ?thesis using i4 f4 by blast
qed

text \<open>
  Claim C3. In every interleaving of any number of workers, each doing the locked
  write-then-read, in which the handler finds a match for every identifier written, every
  worker that has done its \<open>read\<close> holds the record of a task with its own child pid, and
  its \<open>read\<close> returned that record's length: no worker reads the answer to another
  worker's request.
\<close>

theorem no_cross_talk:
  assumes "length (procfs_buffer st) = PROCFS_MAX_SIZE"
    and "run evs (init_system pids st) = Some s"
    and "list_all (finds_match pids) evs"
    and "w < length pids"
    and "wpc (workers s ! w) = HasRead \<or> wpc (workers s ! w) = Released"
  shows "\<exists>p. pid p = pids ! w
            \<and> c_string (buffer (workers s ! w)) = record_text p
            \<and> nread (workers s ! w) = int (length (record_text p))"
proof -
  have inv: "system_inv pids s"
    by (rule run_inv[OF system_inv_init[OF assms(1)] assms(2,3)])
  then have len: "length (workers s) = length pids"
    by (auto simp: system_inv_def dest: arg_cong[where f = length])
  then have w: "w < length (workers s)" using assms(4) by simp
  then have "worker_inv s w" using inv by (simp add: system_inv_def)
  then have "answered (workers s ! w)"
    using assms(5) by (auto simp: worker_inv_def Let_def)
  then show ?thesis
    using child_pid_inv[OF inv w] by (auto simp: answered_def)
qed

definition ex_pids :: "cint list" where
  "ex_pids = [4242, 1]"

definition ex_schedule :: "event list" where
  "ex_schedule = [Lock 1, Write 1 ex_tasks, Read 1, Unlock 1,
                  Lock 0, Write 0 ex_tasks, Read 0, Unlock 0]"

lemma ex_schedule_matches: "list_all (finds_match ex_pids) ex_schedule"
  by (simp add: ex_schedule_def ex_pids_def ex_tasks_def)

lemma ex_schedule_runs:
  "\<exists>s. run ex_schedule (init_system ex_pids st0) = Some s
       \<and> wpc (workers s ! 0) = Released \<and> wpc (workers s ! 1) = Released"
proof -
  let ?s0 = "init_system ex_pids st0"
  have i0: "system_inv ex_pids ?s0"
    by (rule system_inv_init) (simp add: st0_def PROCFS_MAX_SIZE_def)
  have f0: "length (workers ?s0) = 2" "wpc (workers ?s0 ! 0) = Opened"
    "wpc (workers ?s0 ! 1) = Opened" "mutex ?s0 = None"
    by (simp_all add: init_system_def ex_pids_def)
  have m1: "find (\<lambda>p. pid p = ex_pids ! 1) ex_tasks \<noteq> None"
    and m0: "find (\<lambda>p. pid p = ex_pids ! 0) ex_tasks \<noteq> None"
    by (simp_all add: ex_pids_def ex_tasks_def)
  from transaction[OF i0 _ f0(3,4) m1] f0
  obtain s1 where s1: "run [Lock 1, Write 1 ex_tasks, Read 1, Unlock 1] ?s0 = Some s1"
    "system_inv ex_pids s1" "mutex s1 = None" "wpc (workers s1 ! 1) = Released"
    "length (workers s1) = 2" "wpc (workers s1 ! 0) = Opened"
    by auto
  from transaction[OF s1(2) _ s1(6,3) m0] s1
  obtain s2 where s2: "run [Lock 0, Write 0 ex_tasks, Read 0, Unlock 0] s1 = Some s2"
    "wpc (workers s2 ! 0) = Released" "wpc (workers s2 ! 1) = Released"
    by auto
  have sp: "ex_schedule = [Lock 1, Write 1 ex_tasks, Read 1, Unlock 1]
                      @ [Lock 0, Write 0 ex_tasks, Read 0, Unlock 0]"
    by (simp add: ex_schedule_def)
  have "run ex_schedule ?s0 = Some s2"
    unfolding sp run_append s1(1) by (simp only: option.case s2(1))
  then show ?thesis using s2(2,3) by blast
qed

theorem no_cross_talk_witness:
  "length (procfs_buffer st0) = PROCFS_MAX_SIZE \<and> list_all (finds_match ex_pids) ex_schedule
   \<and> (0::nat) < length ex_pids
   \<and> (\<exists>s. run ex_schedule (init_system ex_pids st0) = Some s
         \<and> wpc (workers s ! 0) = Released
         \<and> (\<exists>p. pid p = 4242 \<and> c_string (buffer (workers s ! 0)) = record_text p
                \<and> nread (workers s ! 0) = int (length (record_text p))))"
proof -
  have l: "length (procfs_buffer st0) = PROCFS_MAX_SIZE" by (simp add: st0_def PROCFS_MAX_SIZE_def)
  have k: "(0::nat) < length ex_pids" "ex_pids ! 0 = 4242" by (simp_all add: ex_pids_def)
  from ex_schedule_runs obtain s where s: "run ex_schedule (init_system ex_pids st0) = Some s"
    "wpc (workers s ! 0) = Released"
    by blast
  from no_cross_talk[OF l s(1) ex_schedule_matches k(1)] s(2) k(2)
  have "\<exists>p. pid p = 4242 \<and> c_string (buffer (workers s ! 0)) = record_text p
            \<and> nread (workers s ! 0) = int (length (record_text p))"
    by simp
  then show ?thesis using l ex_schedule_matches k(1) s by blast
qed

end
